theory Spec2Isabelle
  imports Complex_Main "HOL-Library.Log_Nat"
begin

section \<open>The sync orchestrator of \<open>src/index.js\<close>\<close>

text \<open>
  Block heights are JavaScript numbers that only ever hold integers; they are modelled as
  \<open>int\<close>. Durations passed to \<open>setTimeout\<close> are milliseconds, modelled as \<open>nat\<close>.
\<close>

subsection \<open>Constants of \<open>syncBlocks\<close>\<close>

definition BATCH_SIZE :: int where
  "BATCH_SIZE = 100"

definition CONCURRENT_BATCHES :: nat where
  "CONCURRENT_BATCHES = 5"

subsection \<open>Launching the batches of one round\<close>

text \<open>
  The inner \<open>for (let i = 0; i < CONCURRENT_BATCHES; i++)\<close> loop of \<open>syncBlocks\<close>. Each
  iteration computes \<open>batchStart\<close>, leaves the loop (\<open>break\<close>) when it is past
  \<open>latestBlockHeight\<close>, and otherwise launches the batch \<open>[batchStart, batchEnd]\<close>. The
  result is the list of launched batches in launch order. The batch size and the number of
  concurrent batches are arguments; \<open>syncBlocks\<close> passes the two constants.
\<close>

function launchBatches :: "int \<Rightarrow> nat \<Rightarrow> int \<Rightarrow> int \<Rightarrow> nat \<Rightarrow> (int \<times> int) list" where
  "launchBatches bs cb currentBlockHeight latestBlockHeight i =
     (if i < cb then
        (let batchStart = currentBlockHeight + int i * bs in
         if batchStart > latestBlockHeight then []
         else (batchStart, min (batchStart + bs - 1) latestBlockHeight)
              # launchBatches bs cb currentBlockHeight latestBlockHeight (Suc i))
      else [])"
  by pat_completeness auto
termination
  by (relation "measure (\<lambda>(bs, cb, cur, latest, i). cb - i)") auto

declare launchBatches.simps [simp del]

text \<open>
  Inside a batch one \<open>processBlock(height)\<close> promise is created per height of
  \<open>[batchStart, batchEnd]\<close>. Whether that promise is fulfilled in the round at hand is an
  input of the orchestrator, the predicate \<open>ok\<close>. \<open>Promise.all(blockPromises).then(() =>
  batchEnd)\<close> is fulfilled with \<open>batchEnd\<close> when every height is, and rejected otherwise; a
  rejected promise is \<open>None\<close>.
\<close>

definition batchPromise :: "(int \<Rightarrow> bool) \<Rightarrow> int \<times> int \<Rightarrow> int option" where
  "batchPromise ok w = (if list_all ok [fst w..snd w] then Some (snd w) else None)"

text \<open>\<open>Promise.all\<close> over settled promises: the list of values, or rejection.\<close>

fun promise_all :: "'a option list \<Rightarrow> 'a list option" where
  "promise_all [] = Some []"
| "promise_all (None # ps) = None"
| "promise_all (Some x # ps) = (case promise_all ps of None \<Rightarrow> None | Some xs \<Rightarrow> Some (x # xs))"

text \<open>\<open>Math.max(...xs)\<close>; \<open>None\<close> stands for the \<open>-Infinity\<close> of an empty argument list.\<close>

fun math_max :: "int list \<Rightarrow> int option" where
  "math_max [] = None"
| "math_max (x # xs) = (case math_max xs of None \<Rightarrow> Some x | Some m \<Rightarrow> Some (max x m))"

subsection \<open>State of the orchestrator\<close>

text \<open>
  \<open>currentBlockHeight\<close> is the module-level variable. \<open>waited\<close> is a ghost log of the
  \<open>await new Promise(resolve => setTimeout(resolve, ms))\<close> pauses taken inside the loop, in
  order.
\<close>

record sync_state =
  currentBlockHeight :: int
  waited :: "nat list"

text \<open>
  One iteration of \<open>while (currentBlockHeight <= latestBlockHeight)\<close>, entered with the
  guard true. \<open>None\<close> is the one outcome the model does not follow further: the frontier
  becoming \<open>-Infinity + 1\<close> because no batch was launched.
\<close>

definition syncRound :: "(int \<Rightarrow> bool) \<Rightarrow> int \<Rightarrow> sync_state \<Rightarrow> sync_state option" where
  "syncRound ok latestBlockHeight s =
     (let batchPromises = map (batchPromise ok)
            (launchBatches BATCH_SIZE CONCURRENT_BATCHES (currentBlockHeight s) latestBlockHeight 0)
      in case promise_all batchPromises of
           Some completedBatchEnds \<Rightarrow>
             (case math_max completedBatchEnds of
                Some m \<Rightarrow> Some (s\<lparr>currentBlockHeight := m + 1\<rparr>)
              | None \<Rightarrow> None)
         | None \<Rightarrow> Some (s\<lparr>waited := waited s @ [2000]\<rparr>))"

text \<open>
  The \<open>while\<close> loop. It need not terminate (a round that keeps failing is retried for
  ever), so it is run against a finite list of rounds: the head of the list says which
  heights are processed successfully in the next round. The result says how the run ended.
\<close>

datatype loop_end = Exited | Still_running | Minus_infinity

fun syncLoop :: "(int \<Rightarrow> bool) list \<Rightarrow> int \<Rightarrow> sync_state \<Rightarrow> loop_end \<times> sync_state" where
  "syncLoop [] latestBlockHeight s =
     (if currentBlockHeight s \<le> latestBlockHeight then (Still_running, s) else (Exited, s))"
| "syncLoop (ok # rounds) latestBlockHeight s =
     (if currentBlockHeight s \<le> latestBlockHeight then
        (case syncRound ok latestBlockHeight s of
           None \<Rightarrow> (Minus_infinity, s)
         | Some s' \<Rightarrow> syncLoop rounds latestBlockHeight s')
      else (Exited, s))"

text \<open>\<open>const delay = currentBlockHeight >= latestBlockHeight ? 1000 : 100\<close>\<close>

definition nextDelay :: "int \<Rightarrow> int \<Rightarrow> nat" where
  "nextDelay frontier latestBlockHeight = (if frontier \<ge> latestBlockHeight then 1000 else 100)"

text \<open>
  One call of \<open>syncBlocks\<close>. The two remote calls made before the loop either reject
  (\<open>None\<close>) or resolve; a resolved \<open>getBlockCount\<close> is an integer. The second component of the result is the delay with which
  \<open>syncBlocks\<close> re-arms itself through \<open>setTimeout\<close>, when the call gets that far.
\<close>

definition syncBlocks ::
  "bool option \<Rightarrow> int option \<Rightarrow> (int \<Rightarrow> bool) list \<Rightarrow> sync_state \<Rightarrow> sync_state \<times> nat option" where
  "syncBlocks isNodeReady getBlockCount rounds s =
     (case isNodeReady of
        None \<Rightarrow> (s, Some 5000)
      | Some isReady \<Rightarrow>
          if \<not> isReady then (s, Some 5000)
          else (case getBlockCount of
                  None \<Rightarrow> (s, Some 5000)
                | Some latestBlockHeight \<Rightarrow>
                    (case syncLoop rounds latestBlockHeight s of
                       (Exited, s') \<Rightarrow>
                         (s', Some (nextDelay (currentBlockHeight s') latestBlockHeight))
                     | (_, s') \<Rightarrow> (s', None))))"

section \<open>The store: tables, statements and a connection\<close>

text \<open>
  The two tables as the prepared statements of \<open>src/index.js\<close> see them: the columns
  named in \<open>insertBlock\<close> and \<open>insertTx\<close>. A table is the list of its rows. Payloads are
  kept as their JSON text.
\<close>

type_synonym json = string

record block_row =
  height :: int
  hash :: string
  timestamp :: int
  bitcoin_block_height :: int

record tx_row =
  txid :: string
  block_height :: int
  data :: json
  status :: int
  bitcoin_txids :: "string list"

record database =
  tbl_blocks :: "block_row list"
  tbl_transactions :: "tx_row list"

text \<open>
  \<open>INSERT ... ON CONFLICT (key) DO UPDATE SET\<close> every other column to the new value:
  the row with the same key is overwritten where it stands, and a row with a new key is
  added. \<open>insertBlock\<close> is this statement on \<open>blocks\<close> with key \<open>height\<close>, \<open>insertTx\<close> on
  \<open>transactions\<close> with key \<open>txid\<close>.
\<close>

fun upsert :: "('r \<Rightarrow> 'k) \<Rightarrow> 'r \<Rightarrow> 'r list \<Rightarrow> 'r list" where
  "upsert key r [] = [r]"
| "upsert key r (x # xs) = (if key x = key r then r # xs else x # upsert key r xs)"

definition upsert_block :: "block_row \<Rightarrow> block_row list \<Rightarrow> block_row list" where
  "upsert_block = upsert height"

definition upsert_tx :: "tx_row \<Rightarrow> tx_row list \<Rightarrow> tx_row list" where
  "upsert_tx = upsert txid"

text \<open>The statements \<open>storeBlock\<close> sends through \<open>client.query\<close>.\<close>

datatype pg_stmt = BEGIN | COMMIT | ROLLBACK | InsertBlock block_row | InsertTx tx_row

text \<open>What can be thrown inside \<open>storeBlock\<close> and \<open>processBlock\<close>.\<close>

datatype error =
    RpcError string      \<comment> \<open>a rejected call of the node client, with its message\<close>
  | TypeError            \<comment> \<open>reading a property of \<open>null\<close> or \<open>undefined\<close>\<close>
  | ConnectError         \<comment> \<open>\<open>pool.connect()\<close> rejected\<close>
  | QueryError pg_stmt   \<comment> \<open>the statement was refused by the database\<close>

text \<open>
  A connection. \<open>visible\<close> is the committed database, what every connection reads.
  \<open>open_txn\<close> holds the writes of the open transaction, not yet committed, in the order
  they were made; it is \<open>None\<close> outside a transaction. \<open>issued\<close> is a ghost log of the
  statements sent, in order.
\<close>

record pg =
  visible :: database
  open_txn :: "pg_stmt list option"
  issued :: "pg_stmt list"

text \<open>
  Which database operations fail during one call of \<open>storeBlock\<close> is an input: the
  schema file \<open>init.sql\<close> with its constraints is not part of the sources, and a connection
  can fail at any statement.
\<close>

record db_faults =
  connect_fails :: bool
  stmt_fails :: "pg_stmt \<Rightarrow> bool"

definition apply_insert :: "pg_stmt \<Rightarrow> database \<Rightarrow> database" where
  "apply_insert q db =
     (case q of
        InsertBlock r \<Rightarrow> db\<lparr>tbl_blocks := upsert_block r (tbl_blocks db)\<rparr>
      | InsertTx r \<Rightarrow> db\<lparr>tbl_transactions := upsert_tx r (tbl_transactions db)\<rparr>
      | _ \<Rightarrow> db)"

text \<open>
  The effect of a statement the database accepts. Inside a transaction an insert is kept
  with the transaction and \<open>COMMIT\<close> applies the kept inserts, in order, to the committed
  tables in one step. An insert outside a transaction is committed at once; \<open>COMMIT\<close> and
  \<open>ROLLBACK\<close> outside a transaction do nothing.
\<close>

definition exec_stmt :: "pg_stmt \<Rightarrow> pg \<Rightarrow> pg" where
  "exec_stmt q c =
     (case q of
        BEGIN \<Rightarrow> (case open_txn c of None \<Rightarrow> c\<lparr>open_txn := Some []\<rparr> | Some w \<Rightarrow> c)
      | COMMIT \<Rightarrow>
          (case open_txn c of
             None \<Rightarrow> c
           | Some w \<Rightarrow> c\<lparr>visible := fold apply_insert w (visible c), open_txn := None\<rparr>)
      | ROLLBACK \<Rightarrow> c\<lparr>open_txn := None\<rparr>
      | _ \<Rightarrow> (case open_txn c of
                None \<Rightarrow> c\<lparr>visible := apply_insert q (visible c)\<rparr>
              | Some w \<Rightarrow> c\<lparr>open_txn := Some (w @ [q])\<rparr>))"

text \<open>
  \<open>await client.query(q)\<close>. A refused statement changes no table. A \<open>COMMIT\<close> or
  \<open>ROLLBACK\<close> that fails still ends the transaction without committing it, as the server
  does when the connection is lost.
\<close>

definition client_query :: "db_faults \<Rightarrow> pg_stmt \<Rightarrow> pg \<Rightarrow> (error + unit) \<times> pg" where
  "client_query f q c =
     (let c1 = c\<lparr>issued := issued c @ [q]\<rparr> in
      if stmt_fails f q then
        (Inl (QueryError q), if q = COMMIT \<or> q = ROLLBACK then c1\<lparr>open_txn := None\<rparr> else c1)
      else (Inr (), exec_stmt q c1))"

section \<open>The node client\<close>

text \<open>
  A status reported by the node is a string (\<open>'Processing'\<close>, \<open>'Processed'\<close>) or some
  other JSON value (a failure is reported as an object).
\<close>

datatype remote_status = Status_string string | Status_other json

datatype processed_tx =
  Processed_tx (runtime_transaction: json) (tx_status: remote_status)
    (tx_bitcoin_txids: "string list option")

text \<open>
  A block as \<open>getBlock\<close> returns it, with the two fields \<open>processBlock\<close> stamps on it.
  \<open>storeBlock\<close> skips the transaction loop both for a missing \<open>transactions\<close> property
  and for an empty array; the empty list stands for both.
\<close>

record block = block_row +
  transactions :: "string list"

text \<open>
  The calls of \<open>archClient\<close> the indexer makes; \<open>Inl\<close> is a rejected promise. A resolved
  \<open>getBlock\<close> or \<open>getProcessedTransaction\<close> may carry nothing (\<open>null\<close>).
\<close>

record arch_node =
  getBlockHash :: "int \<Rightarrow> error + string"
  getBlock :: "string \<Rightarrow> error + block option"
  getProcessedTransaction :: "string \<Rightarrow> error + processed_tx option"

section \<open>\<open>storeBlock\<close>\<close>

text \<open>\<open>tx.status === 'Processing' ? 0 : 1\<close>\<close>

definition status_code :: "remote_status \<Rightarrow> int" where
  "status_code s = (if s = Status_string ''Processing'' then 0 else 1)"

text \<open>
  The parameter array of one \<open>insertTx\<close>. A missing or empty \<open>bitcoin_txids\<close> is stored
  as the empty array literal \<open>'{}'\<close>.
\<close>

definition insertTx_row :: "int \<Rightarrow> string \<Rightarrow> processed_tx \<Rightarrow> tx_row" where
  "insertTx_row h txId tx =
     \<lparr>txid = txId,
      block_height = h,
      data = runtime_transaction tx,
      status = status_code (tx_status tx),
      bitcoin_txids = (case tx_bitcoin_txids tx of
                         None \<Rightarrow> []
                       | Some ids \<Rightarrow> if length ids > 0 then ids else [])\<rparr>"

text \<open>
  \<open>await Promise.all(batch.map(txId => getProcessedTransaction(txId)))\<close>: every
  transaction of the sub-batch resolved, or the first rejection in list order.
\<close>

fun resolve_all :: "arch_node \<Rightarrow> string list \<Rightarrow> error + (string \<times> processed_tx option) list" where
  "resolve_all nd [] = Inr []"
| "resolve_all nd (txId # ids) =
     (case getProcessedTransaction nd txId of
        Inl e \<Rightarrow> Inl e
      | Inr tx \<Rightarrow> (case resolve_all nd ids of Inl e \<Rightarrow> Inl e | Inr rs \<Rightarrow> Inr ((txId, tx) # rs)))"

text \<open>
  \<open>txResults.map(({txId, tx}) => client.query(insertTx, [...]))\<close>: the statements queued
  on the connection, in order. Building the parameters of a \<open>null\<close> transaction throws, which
  leaves the statements before it queued; the flag says whether that happened.
\<close>

fun queries_of :: "int \<Rightarrow> (string \<times> processed_tx option) list \<Rightarrow> pg_stmt list \<times> bool" where
  "queries_of h [] = ([], False)"
| "queries_of h ((txId, None) # rs) = ([], True)"
| "queries_of h ((txId, Some tx) # rs) =
     (case queries_of h rs of (qs, threw) \<Rightarrow> (InsertTx (insertTx_row h txId tx) # qs, threw))"

text \<open>
  The queued statements run on the connection one after the other. After the first
  refusal the transaction is aborted: the statements behind it are still sent and are all
  refused without effect.
\<close>

fun run_queries :: "db_faults \<Rightarrow> pg_stmt list \<Rightarrow> pg \<Rightarrow> (error + unit) \<times> pg" where
  "run_queries f [] c = (Inr (), c)"
| "run_queries f (q # qs) c =
     (case client_query f q c of
        (Inl e, c') \<Rightarrow> (Inl e, c'\<lparr>issued := issued c' @ qs\<rparr>)
      | (Inr u, c') \<Rightarrow> run_queries f qs c')"

text \<open>One sub-batch of at most 50 transaction ids.\<close>

definition storeBatch :: "arch_node \<Rightarrow> db_faults \<Rightarrow> int \<Rightarrow> string list \<Rightarrow> pg \<Rightarrow> (error + unit) \<times> pg" where
  "storeBatch nd f h batch c =
     (case resolve_all nd batch of
        Inl e \<Rightarrow> (Inl e, c)
      | Inr txResults \<Rightarrow>
          (case queries_of h txResults of
             (qs, threw) \<Rightarrow>
               (case run_queries f qs c of
                  (r, c') \<Rightarrow> if threw then (Inl TypeError, c') else (r, c'))))"

text \<open>\<open>for (let i = 0; i < block.transactions.length; i += batchSize)\<close> with \<open>batchSize = 50\<close>.\<close>

function storeTransactions ::
  "arch_node \<Rightarrow> db_faults \<Rightarrow> int \<Rightarrow> string list \<Rightarrow> nat \<Rightarrow> pg \<Rightarrow> (error + unit) \<times> pg" where
  "storeTransactions nd f h txs i c =
     (if i < length txs then
        (case storeBatch nd f h (take 50 (drop i txs)) c of
           (Inl e, c') \<Rightarrow> (Inl e, c')
         | (Inr u, c') \<Rightarrow> storeTransactions nd f h txs (i + 50) c')
      else (Inr (), c))"
  by pat_completeness auto
termination
  by (relation "measure (\<lambda>(nd, f, h, txs, i, c). length txs - i)") auto

declare storeTransactions.simps [simp del]

text \<open>The parameter array of \<open>insertBlock\<close>.\<close>

definition insertBlock_row :: "block \<Rightarrow> block_row" where
  "insertBlock_row blk =
     \<lparr>height = height blk, hash = hash blk, timestamp = timestamp blk,
      bitcoin_block_height = bitcoin_block_height blk\<rparr>"

text \<open>The body of the \<open>try\<close> block of \<open>storeBlock\<close>.\<close>

definition storeBlock_try :: "arch_node \<Rightarrow> db_faults \<Rightarrow> block \<Rightarrow> pg \<Rightarrow> (error + unit) \<times> pg" where
  "storeBlock_try nd f blk client =
     (case client_query f BEGIN client of
        (Inl e, c1) \<Rightarrow> (Inl e, c1)
      | (Inr u, c1) \<Rightarrow>
          (case client_query f (InsertBlock (insertBlock_row blk)) c1 of
             (Inl e, c2) \<Rightarrow> (Inl e, c2)
           | (Inr u, c2) \<Rightarrow>
               (case storeTransactions nd f (height blk) (transactions blk) 0 c2 of
                  (Inl e, c3) \<Rightarrow> (Inl e, c3)
                | (Inr u, c3) \<Rightarrow> client_query f COMMIT c3)))"

text \<open>
  \<open>storeBlock\<close>: take a connection, run the body, and on any throw send \<open>ROLLBACK\<close> and
  throw again. When \<open>ROLLBACK\<close> itself is refused, that error is the one thrown.
\<close>

definition storeBlock :: "arch_node \<Rightarrow> db_faults \<Rightarrow> block \<Rightarrow> pg \<Rightarrow> (error + unit) \<times> pg" where
  "storeBlock nd f blk client =
     (if connect_fails f then (Inl ConnectError, client)
      else (case storeBlock_try nd f blk client of
              (Inr u, c) \<Rightarrow> (Inr (), c)
            | (Inl e, c) \<Rightarrow>
                (case client_query f ROLLBACK c of
                   (Inr u, c') \<Rightarrow> (Inl e, c')
                 | (Inl e', c') \<Rightarrow> (Inl e', c'))))"

subsection \<open>Vocabulary for the properties of \<open>storeBlock\<close>\<close>

text \<open>
  The rows a list of transaction ids stands for at a node: one row per id the node resolves
  to a transaction.
\<close>

definition stored_rows :: "arch_node \<Rightarrow> int \<Rightarrow> string list \<Rightarrow> tx_row list" where
  "stored_rows nd h ids =
     concat (map (\<lambda>txId. case getProcessedTransaction nd txId of
                            Inr (Some tx) \<Rightarrow> [insertTx_row h txId tx]
                          | _ \<Rightarrow> []) ids)"

definition all_resolved :: "arch_node \<Rightarrow> string list \<Rightarrow> bool" where
  "all_resolved nd ids =
     list_all (\<lambda>txId. case getProcessedTransaction nd txId of Inr (Some tx) \<Rightarrow> True | _ \<Rightarrow> False) ids"

text \<open>Nothing fails while the block is stored.\<close>

definition store_succeeds :: "arch_node \<Rightarrow> db_faults \<Rightarrow> block \<Rightarrow> bool" where
  "store_succeeds nd f blk \<longleftrightarrow>
     \<not> connect_fails f \<and> \<not> stmt_fails f BEGIN \<and>
     \<not> stmt_fails f (InsertBlock (insertBlock_row blk)) \<and>
     all_resolved nd (transactions blk) \<and>
     list_all (\<lambda>r. \<not> stmt_fails f (InsertTx r)) (stored_rows nd (height blk) (transactions blk)) \<and>
     \<not> stmt_fails f COMMIT"

text \<open>The statements of a successful \<open>storeBlock\<close>, in order.\<close>

definition store_statements :: "arch_node \<Rightarrow> block \<Rightarrow> pg_stmt list" where
  "store_statements nd blk =
     BEGIN # InsertBlock (insertBlock_row blk)
       # map InsertTx (stored_rows nd (height blk) (transactions blk)) @ [COMMIT]"

text \<open>Every transaction row has its parent block row.\<close>

definition parents_present :: "database \<Rightarrow> bool" where
  "parents_present db =
     list_all (\<lambda>t. list_ex (\<lambda>b. height b = block_height t) (tbl_blocks db)) (tbl_transactions db)"

text \<open>The primary keys: no two rows of a table share their key.\<close>

definition primary_keys :: "database \<Rightarrow> bool" where
  "primary_keys db \<longleftrightarrow>
     distinct (map height (tbl_blocks db)) \<and> distinct (map txid (tbl_transactions db))"

section \<open>Two connections on one database\<close>

text \<open>
  \<open>storeBlock\<close> never reads the database, so what a call sends depends on the node and the
  faults only, and two calls that overlap in time are two statement lists that the database
  receives interleaved, each on its own connection. A server with two connections: the
  committed tables, and for each connection the writes of its open transaction.
\<close>

datatype conn = Conn_A | Conn_B

record server =
  committed :: database
  txn :: "conn \<Rightarrow> pg_stmt list option"

text \<open>
  An accepted statement arriving on a connection acts as \<open>exec_stmt\<close> says, on the
  committed tables and on the transaction of that connection.
\<close>

definition server_exec :: "conn \<times> pg_stmt \<Rightarrow> server \<Rightarrow> server" where
  "server_exec p s =
     (let c = exec_stmt (snd p) \<lparr>visible = committed s, open_txn = txn s (fst p), issued = []\<rparr>
      in s\<lparr>committed := visible c, txn := (txn s)(fst p := open_txn c)\<rparr>)"

text \<open>A schedule is the order in which the statements of both connections arrive.\<close>

definition run_schedule :: "(conn \<times> pg_stmt) list \<Rightarrow> server \<Rightarrow> server" where
  "run_schedule sched s = fold server_exec sched s"

definition sent_on :: "conn \<Rightarrow> (conn \<times> pg_stmt) list \<Rightarrow> pg_stmt list" where
  "sent_on x sched = map snd (filter (\<lambda>p. fst p = x) sched)"

definition idle_server :: "database \<Rightarrow> server" where
  "idle_server db = \<lparr>committed = db, txn = (\<lambda>x. None)\<rparr>"

text \<open>The connections in the order in which their \<open>COMMIT\<close> arrives.\<close>

definition commit_order :: "(conn \<times> pg_stmt) list \<Rightarrow> conn list" where
  "commit_order sched = map fst (filter (\<lambda>p. snd p = COMMIT) sched)"

definition is_insert :: "pg_stmt \<Rightarrow> bool" where
  "is_insert q = (case q of InsertBlock b \<Rightarrow> True | InsertTx t \<Rightarrow> True | _ \<Rightarrow> False)"

text \<open>The inserts of a successful \<open>storeBlock\<close>, in order.\<close>

definition store_inserts :: "arch_node \<Rightarrow> block \<Rightarrow> pg_stmt list" where
  "store_inserts nd blk =
     InsertBlock (insertBlock_row blk) # map InsertTx (stored_rows nd (height blk) (transactions blk))"

text \<open>What a successful \<open>storeBlock\<close> of the block commits, as a function on the tables.\<close>

definition store_effect_of :: "arch_node \<Rightarrow> block \<Rightarrow> database \<Rightarrow> database" where
  "store_effect_of nd blk db = fold apply_insert (store_inserts nd blk) db"

section \<open>\<open>processBlock\<close> and the progress tracker\<close>

text \<open>
  A JavaScript number is a binary64 floating-point number. A finite one is a rational, and
  an arithmetic operation on finite numbers yields the exact result rounded to the nearest
  binary64 number, a tie going to the even significand. \<open>binary64\<close> is that rounding:
  the significand has 53 bits and the exponent is at least \<open>-1022\<close>, below which the
  numbers are spaced \<open>2 ^ -1074\<close> apart. The model follows finite numbers only: where
  the exact result of an operation \<open>overflows\<close>, JavaScript yields \<open>Infinity\<close> or
  \<open>-Infinity\<close> and \<open>binary64\<close> does not say what happens. An average of durations counted
  in milliseconds stays far below.
\<close>

text \<open>The exponent \<open>e\<close> of a positive rational: \<open>2 ^ e \<le> x < 2 ^ (e + 1)\<close>.\<close>

definition exponent_of :: "rat \<Rightarrow> int" where
  "exponent_of x =
     (if 1 \<le> x then bitlen \<lfloor>x\<rfloor> - 1
      else (let k = bitlen \<lfloor>1 / x\<rfloor> - 1 in if x = power_int 2 (- k) then - k else - k - 1))"

text \<open>The nearest integer, a tie going to the even one.\<close>

definition round_half_even :: "rat \<Rightarrow> int" where
  "round_half_even m =
     (let f = \<lfloor>m\<rfloor>; r = m - of_int f in
      if r < 1 / 2 then f else if 1 / 2 < r then f + 1 else if even f then f else f + 1)"

definition binary64 :: "rat \<Rightarrow> rat" where
  "binary64 x =
     (if x = 0 then 0
      else (let e = max (exponent_of \<bar>x\<bar>) (- 1022); q = power_int 2 (e - 52) in
            sgn x * of_int (round_half_even (\<bar>x\<bar> / q)) * q))"

text \<open>
  An exact result overflows when its magnitude is at least \<open>2 ^ 1024 - 2 ^ 970\<close>, halfway
  between the largest binary64 number and \<open>2 ^ 1024\<close>.
\<close>

definition overflows :: "rat \<Rightarrow> bool" where
  "overflows x \<longleftrightarrow> 2 ^ 1024 - 2 ^ 970 \<le> \<bar>x\<bar>"

text \<open>
  The module-level state \<open>processBlock\<close> touches. Times are milliseconds; the smoothed
  time is a JavaScript number.
\<close>

record indexer =
  client :: pg
  averageBlockTime :: rat
  lastBlockTime :: int

text \<open>
  \<open>averageBlockTime === 0 ? blockTime : (averageBlockTime * 0.9 + blockTime * 0.1)\<close>. The
  literals \<open>0.9\<close> and \<open>0.1\<close> denote the binary64 numbers nearest to them, and each of the
  two products and the sum is rounded.
\<close>

definition nextAverageBlockTime :: "rat \<Rightarrow> rat \<Rightarrow> rat" where
  "nextAverageBlockTime avg blockTime =
     (if avg = 0 then blockTime
      else binary64 (binary64 (avg * binary64 (9 / 10)) + binary64 (blockTime * binary64 (1 / 10))))"

text \<open>
  \<open>processBlock(height)\<close>; \<open>blockStartTime\<close> and \<open>now\<close> are the two readings of
  \<open>Date.now()\<close>, before the first remote call and after \<open>storeBlock\<close>.
\<close>

definition processBlock ::
  "arch_node \<Rightarrow> db_faults \<Rightarrow> int \<Rightarrow> int \<Rightarrow> int \<Rightarrow> indexer \<Rightarrow> (error + block) \<times> indexer" where
  "processBlock nd f blockStartTime now h st =
     (case getBlockHash nd h of
        Inl e \<Rightarrow> (Inl e, st)
      | Inr blockHash \<Rightarrow>
          (case getBlock nd blockHash of
             Inl e \<Rightarrow> (Inl e, st)
           | Inr None \<Rightarrow> (Inl TypeError, st)
           | Inr (Some b) \<Rightarrow>
               (let blk = b\<lparr>height := h, hash := blockHash\<rparr> in
                case storeBlock nd f blk (client st) of
                  (Inl e, c) \<Rightarrow> (Inl e, st\<lparr>client := c\<rparr>)
                | (Inr u, c) \<Rightarrow>
                    (let blockTime = of_int (now - blockStartTime) in
                     (Inr blk,
                      st\<lparr>client := c,
                         averageBlockTime := nextAverageBlockTime (averageBlockTime st) blockTime,
                         lastBlockTime := now\<rparr>)))))"

section \<open>Startup\<close>

text \<open>\<open>SELECT MAX(height) as max_height FROM blocks\<close>: \<open>NULL\<close> on the empty table.\<close>

definition select_max_height :: "database \<Rightarrow> int option" where
  "select_max_height db = math_max (map height (tbl_blocks db))"

text \<open>
  \<open>currentBlockHeight = result.rows[0].max_height || 0\<close>: \<open>null\<close> and \<open>0\<close> are both
  falsy.
\<close>

definition startup :: "database \<Rightarrow> sync_state \<Rightarrow> sync_state" where
  "startup db s =
     s\<lparr>currentBlockHeight :=
         (case select_max_height db of None \<Rightarrow> 0 | Some h \<Rightarrow> if h = 0 then 0 else h)\<rparr>"

text \<open>
  The life of the process after startup: \<open>syncBlocks\<close> re-arms itself for as long as its
  calls return. Each call has its own answers from the node and its own rounds.
\<close>

record pass =
  ready_answer :: "bool option"
  count_answer :: "int option"
  round_outcomes :: "(int \<Rightarrow> bool) list"

fun run_passes :: "pass list \<Rightarrow> sync_state \<Rightarrow> sync_state" where
  "run_passes [] s = s"
| "run_passes (p # ps) s =
     (case syncBlocks (ready_answer p) (count_answer p) (round_outcomes p) s of
        (s', Some delay) \<Rightarrow> run_passes ps s'
      | (s', None) \<Rightarrow> s')"

text \<open>The module initialises \<open>currentBlockHeight\<close> to \<open>0\<close>.\<close>

definition initial_state :: sync_state where
  "initial_state = \<lparr>currentBlockHeight = 0, waited = []\<rparr>"

section \<open>The read endpoints\<close>

datatype 'a response = Ok_200 'a | Not_found_404 | Error_500

text \<open>
  \<open>ORDER BY height DESC LIMIT 200\<close> and \<open>ORDER BY block_height DESC LIMIT 20\<close>. The order
  among rows of equal key is left open by SQL; the model keeps them in table order.
  \<open>query_fails\<close> says whether \<open>pool.query\<close> rejects.
\<close>

definition api_blocks :: "bool \<Rightarrow> database \<Rightarrow> block_row list response" where
  "api_blocks query_fails db =
     (if query_fails then Error_500
      else Ok_200 (take 200 (sort_key (\<lambda>r. - height r) (tbl_blocks db))))"

definition api_transactions :: "bool \<Rightarrow> database \<Rightarrow> tx_row list response" where
  "api_transactions query_fails db =
     (if query_fails then Error_500
      else Ok_200 (take 20 (sort_key (\<lambda>r. - block_height r) (tbl_transactions db))))"

text \<open>
  \<open>GET /api/search\<close>. \<open>parseInt\<close> is JavaScript's, an argument of the model: \<open>None\<close>
  is \<open>NaN\<close>. \<open>query_fails k\<close> says whether the \<open>k\<close>-th query of the handler rejects.
\<close>

datatype search_hit = Transaction_hit tx_row | Block_hit block_row

definition api_search ::
  "(string \<Rightarrow> int option) \<Rightarrow> (nat \<Rightarrow> bool) \<Rightarrow> database \<Rightarrow> string \<Rightarrow> search_hit response" where
  "api_search parseInt query_fails db term =
     (if query_fails 0 then Error_500
      else case filter (\<lambda>r. txid r = term) (tbl_transactions db) of
        t # txRows \<Rightarrow> Ok_200 (Transaction_hit t)
      | [] \<Rightarrow>
          (if query_fails 1 then Error_500
           else case filter (\<lambda>r. hash r = term) (tbl_blocks db) of
             b # blockRows \<Rightarrow> Ok_200 (Block_hit b)
           | [] \<Rightarrow>
               (case parseInt term of
                  None \<Rightarrow> Not_found_404
                | Some h \<Rightarrow>
                    (if query_fails 2 then Error_500
                     else case filter (\<lambda>r. height r = h) (tbl_blocks db) of
                       b # heightRows \<Rightarrow> Ok_200 (Block_hit b)
                     | [] \<Rightarrow> Not_found_404))))"

section \<open>A small node and an empty store, for the examples\<close>

definition demo_block :: block where
  "demo_block =
     \<lparr>height = 7, hash = ''h7'', timestamp = 1000, bitcoin_block_height = 3,
      transactions = [''t1'', ''t2'']\<rparr>"

definition demo_node :: arch_node where
  "demo_node =
     \<lparr>getBlockHash = (\<lambda>h. if h = 7 then Inr ''h7'' else Inl (RpcError ''unknown height'')),
      getBlock = (\<lambda>hs. if hs = ''h7'' then Inr (Some demo_block) else Inl (RpcError ''unknown hash'')),
      getProcessedTransaction =
        (\<lambda>txId. if txId = ''t1'' then Inr (Some (Processed_tx ''{a}'' (Status_string ''Processing'') None))
                else if txId = ''t2'' then
                  Inr (Some (Processed_tx ''{b}'' (Status_string ''Processed'') (Some [''btc''])))
                else Inl (RpcError ''unknown transaction''))\<rparr>"

text \<open>The same node, except that resolving the second transaction fails.\<close>

definition flaky_node :: arch_node where
  "flaky_node =
     demo_node\<lparr>getProcessedTransaction :=
        (\<lambda>txId. if txId = ''t2'' then Inl (RpcError ''timeout'')
                else getProcessedTransaction demo_node txId)\<rparr>"

definition no_faults :: db_faults where
  "no_faults = \<lparr>connect_fails = False, stmt_fails = (\<lambda>q. False)\<rparr>"

definition empty_client :: pg where
  "empty_client =
     \<lparr>visible = \<lparr>tbl_blocks = [], tbl_transactions = []\<rparr>, open_txn = None, issued = []\<rparr>"

text \<open>
  Two calls that store the block of the small node at the same time: an order in which their
  statements may reach the database.
\<close>

definition demo_schedule :: "(conn \<times> pg_stmt) list" where
  "demo_schedule =
     [(Conn_A, BEGIN), (Conn_B, BEGIN),
      (Conn_B, InsertBlock \<lparr>height = 7, hash = ''h7'', timestamp = 1000, bitcoin_block_height = 3\<rparr>),
      (Conn_A, InsertBlock \<lparr>height = 7, hash = ''h7'', timestamp = 1000, bitcoin_block_height = 3\<rparr>),
      (Conn_A, InsertTx \<lparr>txid = ''t1'', block_height = 7, data = ''{a}'', status = 0, bitcoin_txids = []\<rparr>),
      (Conn_B, InsertTx \<lparr>txid = ''t1'', block_height = 7, data = ''{a}'', status = 0, bitcoin_txids = []\<rparr>),
      (Conn_B, InsertTx \<lparr>txid = ''t2'', block_height = 7, data = ''{b}'', status = 1, bitcoin_txids = [''btc'']\<rparr>),
      (Conn_A, InsertTx \<lparr>txid = ''t2'', block_height = 7, data = ''{b}'', status = 1, bitcoin_txids = [''btc'']\<rparr>),
      (Conn_B, COMMIT), (Conn_A, COMMIT)]"

definition fresh_indexer :: indexer where
  "fresh_indexer = \<lparr>client = empty_client, averageBlockTime = 0, lastBlockTime = 0\<rparr>"

text \<open>
  A store in which the string \<open>42\<close> is a transaction id, a block hash and, read as a
  number, a block height.
\<close>

definition demo_store_db :: database where
  "demo_store_db =
     \<lparr>tbl_blocks = [\<lparr>height = 42, hash = ''42'', timestamp = 1, bitcoin_block_height = 1\<rparr>,
                     \<lparr>height = 43, hash = ''abc'', timestamp = 2, bitcoin_block_height = 1\<rparr>],
      tbl_transactions =
        [\<lparr>txid = ''42'', block_height = 43, data = ''{}'', status = 1, bitcoin_txids = []\<rparr>]\<rparr>"

text \<open>A stand-in for \<open>parseInt\<close> on the examples: it reads strings of decimal digits only.\<close>

definition parse_digits :: "string \<Rightarrow> int option" where
  "parse_digits s =
     (if s \<noteq> [] \<and> list_all (\<lambda>ch. ch \<in> set ''0123456789'') s
      then Some (foldl (\<lambda>n ch. 10 * n + (of_char ch - 48)) 0 s) else None)"

section \<open>Properties of the orchestrator\<close>

lemma promise_all_map_Some: "promise_all (map Some xs) = Some xs"
  by (induction xs) auto

lemma promise_all_SomeD: "promise_all ps = Some xs \<Longrightarrow> ps = map Some xs"
  by (induction ps arbitrary: xs rule: promise_all.induct) (auto split: option.splits)

lemma promise_all_Some_iff: "promise_all ps = Some xs \<longleftrightarrow> ps = map Some xs"
  using promise_all_map_Some promise_all_SomeD by metis

lemma promise_all_None_iff: "promise_all ps = None \<longleftrightarrow> None \<in> set ps"
  by (induction ps rule: promise_all.induct) (auto split: option.splits)

lemma math_max_None_iff: "math_max xs = None \<longleftrightarrow> xs = []"
  by (induction xs) (auto split: option.splits)

lemma math_max_Max: "xs \<noteq> [] \<Longrightarrow> math_max xs = Some (Max (set xs))"
proof (induction xs)
  case (Cons a xs)
  show ?case
  proof (cases "xs = []")
    case False
    with Cons show ?thesis by (simp add: Max_insert)
  qed simp
qed simp

lemma launchBatches_bounds:
  "1 \<le> bs \<Longrightarrow> (a, b) \<in> set (launchBatches bs cb cur latest i) \<Longrightarrow>
     cur + int i * bs \<le> a \<and> a \<le> b \<and> b \<le> latest \<and> b \<le> cur + int cb * bs - 1"
proof (induction bs cb cur latest i rule: launchBatches.induct)
  case (1 bs cb cur latest i)
  show ?case
  proof (cases "i < cb \<and> cur + int i * bs \<le> latest")
    case False
    with "1.prems" show ?thesis by (auto simp: launchBatches.simps [of bs cb cur latest i])
  next
    case True
    from "1.prems"(2) True
    consider "(a, b) = (cur + int i * bs, min (cur + int i * bs + bs - 1) latest)"
      | "(a, b) \<in> set (launchBatches bs cb cur latest (Suc i))"
      by (auto simp: launchBatches.simps [of bs cb cur latest i] Let_def)
    then show ?thesis
    proof cases
      case 1
      have "int i * bs + bs \<le> int cb * bs"
      proof -
        have "int (Suc i) \<le> int cb" using True by simp
        then have "int (Suc i) * bs \<le> int cb * bs" using "1.prems"(1) by (intro mult_right_mono) auto
        then show ?thesis by (simp add: algebra_simps)
      qed
      with 1 True "1.prems"(1) show ?thesis by auto
    next
      case 2
      have "cur + int (Suc i) * bs \<le> a \<and> a \<le> b \<and> b \<le> latest \<and> b \<le> cur + int cb * bs - 1"
        using "1.IH" [OF _ refl _ "1.prems"(1) 2] True by auto
      moreover have "int i * bs \<le> int (Suc i) * bs" using "1.prems"(1) by (simp add: algebra_simps)
      ultimately show ?thesis by linarith
    qed
  qed
qed

lemma launchBatches_max_end:
  "1 \<le> bs \<Longrightarrow> i < cb \<Longrightarrow> cur + int i * bs \<le> latest \<Longrightarrow>
     math_max (map snd (launchBatches bs cb cur latest i)) = Some (min (cur + int cb * bs - 1) latest)"
proof (induction bs cb cur latest i rule: launchBatches.induct)
  case (1 bs cb cur latest i)
  let ?start = "cur + int i * bs"
  have unfold: "launchBatches bs cb cur latest i =
      (?start, min (?start + bs - 1) latest) # launchBatches bs cb cur latest (Suc i)"
    using "1.prems" by (simp add: launchBatches.simps [of bs cb cur latest i] Let_def)
  show ?case
  proof (cases "Suc i < cb \<and> cur + int (Suc i) * bs \<le> latest")
    case True
    have "math_max (map snd (launchBatches bs cb cur latest (Suc i))) = Some (min (cur + int cb * bs - 1) latest)"
      using "1.IH" [OF _ refl _ "1.prems"(1)] True "1.prems" by auto
    moreover have "min (?start + bs - 1) latest \<le> min (cur + int cb * bs - 1) latest"
    proof -
      have "int (Suc i) * bs \<le> int cb * bs" using True "1.prems"(1) by (intro mult_right_mono) auto
      then show ?thesis by (simp add: algebra_simps)
    qed
    ultimately show ?thesis by (simp add: unfold)
  next
    case False
    then have rest: "launchBatches bs cb cur latest (Suc i) = []"
      by (auto simp: launchBatches.simps [of bs cb cur latest "Suc i"])
    from False consider "Suc i = cb" | "Suc i < cb" "cur + int (Suc i) * bs > latest"
      using "1.prems"(2) by linarith
    then have "min (?start + bs - 1) latest = min (cur + int cb * bs - 1) latest"
    proof cases
      case 1
      then have "int cb = int i + 1" by simp
      then have "int cb * bs = int i * bs + bs" by (simp add: algebra_simps)
      then show ?thesis by simp
    next
      case 2
      have "int (Suc i) * bs \<le> int cb * bs" using 2 "1.prems"(1) by (intro mult_right_mono) auto
      with 2 show ?thesis by (simp add: algebra_simps)
    qed
    then show ?thesis by (simp add: unfold rest)
  qed
qed


lemma launchBatches_nonempty:
  "0 < cb \<Longrightarrow> cur \<le> latest \<Longrightarrow> launchBatches bs cb cur latest 0 \<noteq> []"
  by (simp add: launchBatches.simps [of bs cb cur latest 0])

lemma round_batches_nonempty:
  "cur \<le> latest \<Longrightarrow> launchBatches BATCH_SIZE CONCURRENT_BATCHES cur latest 0 \<noteq> []"
  by (rule launchBatches_nonempty) (simp_all add: CONCURRENT_BATCHES_def)

lemma round_max_end:
  assumes "cur \<le> latest"
  shows "math_max (map snd (launchBatches BATCH_SIZE CONCURRENT_BATCHES cur latest 0)) =
           Some (min (cur + 499) latest)"
  using launchBatches_max_end [of BATCH_SIZE 0 CONCURRENT_BATCHES cur latest] assms
  by (simp add: BATCH_SIZE_def CONCURRENT_BATCHES_def)

lemma round_Max_end:
  assumes "cur \<le> latest"
  shows "Max (snd ` set (launchBatches BATCH_SIZE CONCURRENT_BATCHES cur latest 0)) = min (cur + 499) latest"
proof -
  let ?ws = "launchBatches BATCH_SIZE CONCURRENT_BATCHES cur latest 0"
  have "map snd ?ws \<noteq> []" using round_batches_nonempty [OF assms] by simp
  from math_max_Max [OF this] round_max_end [OF assms] show ?thesis by simp
qed

lemma batchPromise_all:
  "list_all (\<lambda>w. list_all ok [fst w..snd w]) ws \<Longrightarrow> map (batchPromise ok) ws = map Some (map snd ws)"
  by (induction ws) (auto simp: batchPromise_def)

lemma batchPromise_some_fail:
  "\<not> list_all (\<lambda>w. list_all ok [fst w..snd w]) ws \<Longrightarrow> None \<in> set (map (batchPromise ok) ws)"
  by (induction ws) (auto simp: batchPromise_def)

lemma syncRound_cases:
  assumes "currentBlockHeight s \<le> latest"
  shows "syncRound ok latest s =
     (if list_all (\<lambda>w. list_all ok [fst w..snd w])
           (launchBatches BATCH_SIZE CONCURRENT_BATCHES (currentBlockHeight s) latest 0)
      then Some (s\<lparr>currentBlockHeight := min (currentBlockHeight s + 499) latest + 1\<rparr>)
      else Some (s\<lparr>waited := waited s @ [2000]\<rparr>))"
proof (cases "list_all (\<lambda>w. list_all ok [fst w..snd w])
           (launchBatches BATCH_SIZE CONCURRENT_BATCHES (currentBlockHeight s) latest 0)")
  case True
  let ?ws = "launchBatches BATCH_SIZE CONCURRENT_BATCHES (currentBlockHeight s) latest 0"
  have "promise_all (map (batchPromise ok) ?ws) = Some (map snd ?ws)"
    unfolding batchPromise_all [OF True] by (rule promise_all_map_Some)
  then show ?thesis
    unfolding syncRound_def Let_def
    using True by (simp add: round_max_end [OF assms])
next
  case False
  from batchPromise_some_fail [OF this] show ?thesis
    unfolding syncRound_def Let_def
    using False by (simp add: promise_all_None_iff [THEN iffD2])
qed

lemma syncRound_frontier:
  assumes "currentBlockHeight s \<le> latest" "syncRound ok latest s = Some s'"
  shows "currentBlockHeight s \<le> currentBlockHeight s'"
  using assms(2) unfolding syncRound_cases [OF assms(1)] using assms(1)
  by (auto split: if_splits)

lemma syncRound_not_None:
  "currentBlockHeight s \<le> latest \<Longrightarrow> syncRound ok latest s \<noteq> None"
  by (simp add: syncRound_cases)

lemma syncLoop_frontier:
  "currentBlockHeight s \<le> currentBlockHeight (snd (syncLoop rounds latest s))"
proof (induction rounds arbitrary: s)
  case Nil
  show ?case by simp
next
  case (Cons ok rounds)
  show ?case
  proof (cases "currentBlockHeight s \<le> latest")
    case False
    then show ?thesis by simp
  next
    case True
    then obtain s' where s': "syncRound ok latest s = Some s'"
      using syncRound_not_None [OF True, of ok] by auto
    have "currentBlockHeight s \<le> currentBlockHeight s'" by (rule syncRound_frontier [OF True s'])
    also have "\<dots> \<le> currentBlockHeight (snd (syncLoop rounds latest s'))" by (rule Cons.IH)
    finally show ?thesis using True s' by simp
  qed
qed

lemma syncLoop_append:
  "syncLoop (rs @ rs') latest s =
     (case syncLoop rs latest s of (Still_running, s') \<Rightarrow> syncLoop rs' latest s' | r \<Rightarrow> r)"
proof (induction rs arbitrary: s)
  case Nil
  show ?case by (cases rs') auto
next
  case (Cons ok rs)
  show ?case by (auto simp: Cons.IH split: option.splits)
qed

lemma syncLoop_prefix_frontier:
  "currentBlockHeight (snd (syncLoop rs latest s)) \<le> currentBlockHeight (snd (syncLoop (rs @ rs') latest s))"
proof (cases "syncLoop rs latest s")
  case (Pair e s')
  show ?thesis
  proof (cases e)
    case Still_running
    with Pair show ?thesis using syncLoop_frontier [of s' rs' latest] by (simp add: syncLoop_append)
  qed (use Pair in \<open>simp_all add: syncLoop_append\<close>)
qed


lemma syncBlocks_frontier:
  "currentBlockHeight s \<le> currentBlockHeight (fst (syncBlocks ready count rounds s))"
proof (cases "ready = Some True \<and> count \<noteq> None")
  case False
  then show ?thesis by (auto simp: syncBlocks_def split: option.splits)
next
  case True
  then obtain latest where c: "count = Some latest" by auto
  obtain e s' where l: "syncLoop rounds latest s = (e, s')" by (cases "syncLoop rounds latest s")
  have "fst (syncBlocks ready count rounds s) = s'"
    using True c l by (cases e) (simp_all add: syncBlocks_def)
  with syncLoop_frontier [of s rounds latest] l show ?thesis by simp
qed

lemma run_passes_frontier:
  "currentBlockHeight s \<le> currentBlockHeight (run_passes ps s)"
proof (induction ps arbitrary: s)
  case Nil
  show ?case by simp
next
  case (Cons p ps)
  obtain s' d where r: "syncBlocks (ready_answer p) (count_answer p) (round_outcomes p) s = (s', d)"
    by (cases "syncBlocks (ready_answer p) (count_answer p) (round_outcomes p) s")
  have le: "currentBlockHeight s \<le> currentBlockHeight s'"
    using syncBlocks_frontier [of s "ready_answer p" "count_answer p" "round_outcomes p"] r by simp
  show ?case
  proof (cases d)
    case None
    with r le show ?thesis by simp
  next
    case (Some delay)
    with r have "run_passes (p # ps) s = run_passes ps s'" by simp
    with le Cons.IH [of s'] show ?thesis by simp
  qed
qed

lemma math_max_lower:
  "math_max xs = Some m \<Longrightarrow> list_all (\<lambda>x. lo \<le> x) xs \<Longrightarrow> lo \<le> m"
  by (induction xs arbitrary: m) (auto split: option.splits)

lemma startup_nonneg:
  "list_all (\<lambda>r. 0 \<le> height r) (tbl_blocks db) \<Longrightarrow> 0 \<le> currentBlockHeight (startup db s)"
  using math_max_lower [of "map height (tbl_blocks db)" _ 0]
  by (auto simp: startup_def select_max_height_def list_all_iff split: option.splits)



lemma syncLoop_exit:
  "latestBlockHeight < currentBlockHeight s \<Longrightarrow> syncLoop rounds latestBlockHeight s = (Exited, s)"
  by (cases rounds) simp_all

lemma syncLoop_step:
  assumes "currentBlockHeight s \<le> latest"
  shows "syncLoop (ok # rs) latest s =
           syncLoop rs latest
             (if list_all (\<lambda>w. list_all ok [fst w..snd w])
                   (launchBatches BATCH_SIZE CONCURRENT_BATCHES (currentBlockHeight s) latest 0)
              then s\<lparr>currentBlockHeight :=
                       Max (snd ` set (launchBatches BATCH_SIZE CONCURRENT_BATCHES (currentBlockHeight s) latest 0)) + 1\<rparr>
              else s\<lparr>waited := waited s @ [2000]\<rparr>)"
  using assms by (simp add: syncRound_cases round_Max_end)

lemma syncLoop_all_fail:
  assumes "currentBlockHeight s \<le> latest"
    and "list_all (\<lambda>f. \<not> list_all (\<lambda>w. list_all f [fst w..snd w])
           (launchBatches BATCH_SIZE CONCURRENT_BATCHES (currentBlockHeight s) latest 0)) fs"
  shows "syncLoop fs latest s = (Still_running, s\<lparr>waited := waited s @ replicate (length fs) 2000\<rparr>)"
  using assms
proof (induction fs arbitrary: s)
  case Nil
  then show ?case by simp
next
  case (Cons f fs)
  let ?s1 = "s\<lparr>waited := waited s @ [2000]\<rparr>"
  from Cons.prems have nf: "\<not> list_all (\<lambda>w. list_all f [fst w..snd w])
           (launchBatches BATCH_SIZE CONCURRENT_BATCHES (currentBlockHeight s) latest 0)"
    by simp
  have step: "syncLoop (f # fs) latest s = syncLoop fs latest ?s1"
    unfolding syncLoop_step [OF Cons.prems(1)] using nf by simp
  from Cons.prems have "syncLoop fs latest ?s1
      = (Still_running, ?s1\<lparr>waited := waited ?s1 @ replicate (length fs) 2000\<rparr>)"
    by (intro Cons.IH) simp_all
  with step show ?case by (simp add: replicate_app_Cons_same)
qed

lemma syncLoop_retry:
  assumes "currentBlockHeight s \<le> latest"
    and "list_all (\<lambda>f. \<not> list_all (\<lambda>w. list_all f [fst w..snd w])
           (launchBatches BATCH_SIZE CONCURRENT_BATCHES (currentBlockHeight s) latest 0)) fs"
    and "list_all (\<lambda>w. list_all ok [fst w..snd w])
           (launchBatches BATCH_SIZE CONCURRENT_BATCHES (currentBlockHeight s) latest 0)"
  shows "syncLoop (fs @ ok # rs) latest s =
           syncLoop rs latest
             (s\<lparr>currentBlockHeight :=
                  Max (snd ` set (launchBatches BATCH_SIZE CONCURRENT_BATCHES (currentBlockHeight s) latest 0)) + 1,
                waited := waited s @ replicate (length fs) 2000\<rparr>)"
proof -
  let ?s1 = "s\<lparr>waited := waited s @ replicate (length fs) 2000\<rparr>"
  have le: "currentBlockHeight ?s1 \<le> latest" using assms(1) by simp
  have "syncLoop (fs @ ok # rs) latest s = syncLoop (ok # rs) latest ?s1"
    by (simp add: syncLoop_append syncLoop_all_fail [OF assms(1,2)])
  also have "\<dots> = syncLoop rs latest
             (s\<lparr>currentBlockHeight :=
                  Max (snd ` set (launchBatches BATCH_SIZE CONCURRENT_BATCHES (currentBlockHeight s) latest 0)) + 1,
                waited := waited s @ replicate (length fs) 2000\<rparr>)"
    unfolding syncLoop_step [OF le] using assms(3) by (cases s) simp
  finally show ?thesis .
qed

lemma syncLoop_running:
  "syncLoop rounds latest s = (Still_running, s1) \<Longrightarrow> currentBlockHeight s1 \<le> latest"
proof (induction rounds arbitrary: s)
  case Nil
  then show ?case by (auto split: if_splits)
next
  case (Cons ok rounds)
  then show ?case by (auto split: if_splits option.splits)
qed

lemma syncLoop_next_round:
  assumes "syncLoop rs latest s = (Still_running, s1)"
  shows "syncLoop (rs @ [ok]) latest s =
           syncLoop [] latest
             (if list_all (\<lambda>w. list_all ok [fst w..snd w])
                   (launchBatches BATCH_SIZE CONCURRENT_BATCHES (currentBlockHeight s1) latest 0)
              then s1\<lparr>currentBlockHeight :=
                        Max (snd ` set (launchBatches BATCH_SIZE CONCURRENT_BATCHES (currentBlockHeight s1) latest 0)) + 1\<rparr>
              else s1\<lparr>waited := waited s1 @ [2000]\<rparr>)"
proof -
  have "syncLoop (rs @ [ok]) latest s = syncLoop [ok] latest s1"
    by (simp add: syncLoop_append assms)
  then show ?thesis unfolding syncLoop_step [OF syncLoop_running [OF assms]] .
qed

lemma syncBlocks_loop:
  "fst (syncBlocks (Some True) (Some latest) rounds s) = snd (syncLoop rounds latest s)"
proof -
  obtain e s' where l: "syncLoop rounds latest s = (e, s')" by (cases "syncLoop rounds latest s")
  then show ?thesis by (cases e) (simp_all add: syncBlocks_def)
qed

lemma syncBlocks_no_loop:
  assumes "ready \<noteq> Some True \<or> count = None"
  shows "syncBlocks ready count rounds s = (s, Some 5000)"
  using assms by (auto simp: syncBlocks_def split: option.splits)

lemma run_passes_exit:
  assumes "ready_answer p = Some True" "count_answer p = Some latest"
    and "syncLoop (round_outcomes p) latest s = (Exited, s')"
  shows "run_passes (p # ps) s = run_passes ps s'"
  using assms by (simp add: syncBlocks_def)

lemma run_passes_running:
  assumes "ready_answer p = Some True" "count_answer p = Some latest"
    and "syncLoop (round_outcomes p) latest s = (Still_running, s1)"
  shows "run_passes (p # ps) s = s1"
  using assms by (simp add: syncBlocks_def)

lemma run_passes_no_loop:
  assumes "ready_answer p \<noteq> Some True \<or> count_answer p = None"
  shows "run_passes (p # ps) s = run_passes ps s"
  using syncBlocks_no_loop [OF assms, of "round_outcomes p" s] by simp

subsection \<open>The window scenario\<close>

text \<open>
  Claim C5. With the frontier at 0 and the chain at height 249, the constants
  \<open>BATCH_SIZE = 100\<close> and \<open>CONCURRENT_BATCHES = 5\<close> make one round launch exactly the
  batches \<open>[0,99]\<close>, \<open>[100,199]\<close> and \<open>[200,249]\<close>, the last one cut at the chain height;
  when the three batch promises are fulfilled, the frontier becomes 250.
\<close>

theorem window_partition_scenario:
  "launchBatches BATCH_SIZE CONCURRENT_BATCHES 0 249 0 = [(0, 99), (100, 199), (200, 249)] \<and>
   (list_all (\<lambda>w. batchPromise ok w = Some (snd w)) [(0, 99), (100, 199), (200, 249)] \<longrightarrow>
      syncRound ok 249 (s\<lparr>currentBlockHeight := 0\<rparr>) = Some (s\<lparr>currentBlockHeight := 250\<rparr>))"
proof -
  have ws: "launchBatches BATCH_SIZE CONCURRENT_BATCHES 0 249 0 = [(0, 99), (100, 199), (200, 249)]"
    by (simp add: launchBatches.simps BATCH_SIZE_def CONCURRENT_BATCHES_def)
  show ?thesis
    by (simp add: ws syncRound_def)
qed

theorem window_partition_scenario_witness:
  "list_all (\<lambda>w. batchPromise (\<lambda>h. True) w = Some (snd w)) [(0, 99), (100, 199), (200, 249)] \<and>
   syncRound (\<lambda>h. True) 249 \<lparr>currentBlockHeight = 0, waited = []\<rparr>
     = Some \<lparr>currentBlockHeight = 250, waited = []\<rparr>"
proof -
  have h: "list_all (\<lambda>w. batchPromise (\<lambda>h. True) w = Some (snd w)) [(0, 99), (100, 199), (200, 249)]"
    by (simp add: batchPromise_def list_all_iff)
  from window_partition_scenario [of "\<lambda>h. True" "\<lparr>currentBlockHeight = 0, waited = []\<rparr>"] h
  show ?thesis by simp
qed

subsection \<open>The frontier never decreases\<close>

text \<open>
  Claim C4. While the loop guard holds, a round launches at least one batch. When every
  launched batch succeeds, the frontier becomes the largest batch end plus one, which is
  above the old frontier, and the loop goes on from there without a pause; when some batch
  fails, the frontier stays, a pause of 2000 ms is taken, and the loop runs its next round
  from the same frontier, launching the same batches. So a run of failing rounds leaves the
  frontier where it was and adds one pause of 2000 ms per round, and the first round whose
  batches all succeed moves the frontier to the largest batch end plus one. This holds at
  the start of the loop and after any number of rounds. When the guard is false the loop
  exits and changes nothing. A call of \<open>syncBlocks\<close> with a ready node and a chain height
  leaves the state its loop leaves; any other call leaves the state as it was. Over the
  life of the process each call starts from the state the call before it left. Therefore
  the frontier never decreases: not along the loop, not across a call of \<open>syncBlocks\<close>,
  not across any number of calls, and, when the persisted heights are non-negative, not
  from the initial \<open>0\<close> through startup and the calls that follow.
\<close>

theorem frontier_monotone:
  "(currentBlockHeight s \<le> latest \<longrightarrow>
      (let ws = launchBatches BATCH_SIZE CONCURRENT_BATCHES (currentBlockHeight s) latest 0;
           succeeds = (\<lambda>ok. list_all (\<lambda>w. list_all ok [fst w..snd w]) ws) in
         ws \<noteq> [] \<and>
         currentBlockHeight s < Max (snd ` set ws) + 1 \<and>
         syncRound ok latest s =
           (if succeeds ok then Some (s\<lparr>currentBlockHeight := Max (snd ` set ws) + 1\<rparr>)
            else Some (s\<lparr>waited := waited s @ [2000]\<rparr>)) \<and>
         syncLoop [] latest s = (Still_running, s) \<and>
         syncLoop (ok # rs) latest s =
           syncLoop rs latest
             (if succeeds ok then s\<lparr>currentBlockHeight := Max (snd ` set ws) + 1\<rparr>
              else s\<lparr>waited := waited s @ [2000]\<rparr>) \<and>
         (list_all (\<lambda>f. \<not> succeeds f) fs \<longrightarrow>
            syncLoop fs latest s
              = (Still_running, s\<lparr>waited := waited s @ replicate (length fs) 2000\<rparr>) \<and>
            (succeeds ok \<longrightarrow>
               syncLoop (fs @ ok # rs) latest s =
                 syncLoop rs latest
                   (s\<lparr>currentBlockHeight := Max (snd ` set ws) + 1,
                      waited := waited s @ replicate (length fs) 2000\<rparr>))))) \<and>
   (latest < currentBlockHeight s \<longrightarrow> syncLoop rs latest s = (Exited, s)) \<and>
   (syncLoop rs latest s = (Still_running, s1) \<longrightarrow>
      currentBlockHeight s1 \<le> latest \<and>
      syncLoop (rs @ [ok]) latest s =
        (let ws1 = launchBatches BATCH_SIZE CONCURRENT_BATCHES (currentBlockHeight s1) latest 0 in
         syncLoop [] latest
           (if list_all (\<lambda>w. list_all ok [fst w..snd w]) ws1
            then s1\<lparr>currentBlockHeight := Max (snd ` set ws1) + 1\<rparr>
            else s1\<lparr>waited := waited s1 @ [2000]\<rparr>))) \<and>
   currentBlockHeight s \<le> currentBlockHeight (snd (syncLoop rs latest s)) \<and>
   currentBlockHeight (snd (syncLoop rs latest s))
     \<le> currentBlockHeight (snd (syncLoop (rs @ rs') latest s)) \<and>
   fst (syncBlocks (Some True) (Some latest) rs s) = snd (syncLoop rs latest s) \<and>
   (ready \<noteq> Some True \<or> count = None \<longrightarrow> syncBlocks ready count rs s = (s, Some 5000)) \<and>
   currentBlockHeight s \<le> currentBlockHeight (fst (syncBlocks ready count rs s)) \<and>
   (ready_answer p = Some True \<and> count_answer p = Some latest \<and>
    syncLoop (round_outcomes p) latest s = (Exited, s') \<longrightarrow>
      run_passes (p # ps) s = run_passes ps s') \<and>
   (ready_answer p \<noteq> Some True \<or> count_answer p = None \<longrightarrow>
      run_passes (p # ps) s = run_passes ps s) \<and>
   (ready_answer p = Some True \<and> count_answer p = Some latest \<and>
    syncLoop (round_outcomes p) latest s = (Still_running, s1) \<longrightarrow>
      run_passes (p # ps) s = s1) \<and>
   run_passes [] s = s \<and>
   currentBlockHeight s \<le> currentBlockHeight (run_passes ps s) \<and>
   (list_all (\<lambda>r. 0 \<le> height r) (tbl_blocks db) \<longrightarrow>
      currentBlockHeight initial_state \<le> currentBlockHeight (startup db initial_state) \<and>
      currentBlockHeight initial_state \<le> currentBlockHeight (run_passes ps (startup db initial_state)))"
proof -
  have round: "currentBlockHeight s \<le> latest \<longrightarrow>
      (let ws = launchBatches BATCH_SIZE CONCURRENT_BATCHES (currentBlockHeight s) latest 0;
           succeeds = (\<lambda>ok. list_all (\<lambda>w. list_all ok [fst w..snd w]) ws) in
         ws \<noteq> [] \<and>
         currentBlockHeight s < Max (snd ` set ws) + 1 \<and>
         syncRound ok latest s =
           (if succeeds ok then Some (s\<lparr>currentBlockHeight := Max (snd ` set ws) + 1\<rparr>)
            else Some (s\<lparr>waited := waited s @ [2000]\<rparr>)) \<and>
         syncLoop [] latest s = (Still_running, s) \<and>
         syncLoop (ok # rs) latest s =
           syncLoop rs latest
             (if succeeds ok then s\<lparr>currentBlockHeight := Max (snd ` set ws) + 1\<rparr>
              else s\<lparr>waited := waited s @ [2000]\<rparr>) \<and>
         (list_all (\<lambda>f. \<not> succeeds f) fs \<longrightarrow>
            syncLoop fs latest s
              = (Still_running, s\<lparr>waited := waited s @ replicate (length fs) 2000\<rparr>) \<and>
            (succeeds ok \<longrightarrow>
               syncLoop (fs @ ok # rs) latest s =
                 syncLoop rs latest
                   (s\<lparr>currentBlockHeight := Max (snd ` set ws) + 1,
                      waited := waited s @ replicate (length fs) 2000\<rparr>))))"
  proof
    assume le: "currentBlockHeight s \<le> latest"
    let ?ws = "launchBatches BATCH_SIZE CONCURRENT_BATCHES (currentBlockHeight s) latest 0"
    have a: "?ws \<noteq> []" by (rule round_batches_nonempty [OF le])
    have b: "currentBlockHeight s < Max (snd ` set ?ws) + 1"
      unfolding round_Max_end [OF le] using le by simp
    have c: "syncRound ok latest s =
           (if list_all (\<lambda>w. list_all ok [fst w..snd w]) ?ws
            then Some (s\<lparr>currentBlockHeight := Max (snd ` set ?ws) + 1\<rparr>)
            else Some (s\<lparr>waited := waited s @ [2000]\<rparr>))"
      unfolding round_Max_end [OF le] by (rule syncRound_cases [OF le])
    have d: "syncLoop [] latest s = (Still_running, s)" using le by simp
    note e = syncLoop_step [OF le, of ok rs]
    have f: "list_all (\<lambda>f. \<not> list_all (\<lambda>w. list_all f [fst w..snd w]) ?ws) fs \<longrightarrow>
            syncLoop fs latest s
              = (Still_running, s\<lparr>waited := waited s @ replicate (length fs) 2000\<rparr>) \<and>
            (list_all (\<lambda>w. list_all ok [fst w..snd w]) ?ws \<longrightarrow>
               syncLoop (fs @ ok # rs) latest s =
                 syncLoop rs latest
                   (s\<lparr>currentBlockHeight := Max (snd ` set ?ws) + 1,
                      waited := waited s @ replicate (length fs) 2000\<rparr>))"
    proof (intro impI conjI)
      assume fl: "list_all (\<lambda>f. \<not> list_all (\<lambda>w. list_all f [fst w..snd w]) ?ws) fs"
      show "syncLoop fs latest s
              = (Still_running, s\<lparr>waited := waited s @ replicate (length fs) 2000\<rparr>)"
        by (rule syncLoop_all_fail [OF le fl])
      assume su: "list_all (\<lambda>w. list_all ok [fst w..snd w]) ?ws"
      show "syncLoop (fs @ ok # rs) latest s =
                 syncLoop rs latest
                   (s\<lparr>currentBlockHeight := Max (snd ` set ?ws) + 1,
                      waited := waited s @ replicate (length fs) 2000\<rparr>)"
        by (rule syncLoop_retry [OF le fl su])
    qed
    show "(let ws = launchBatches BATCH_SIZE CONCURRENT_BATCHES (currentBlockHeight s) latest 0;
           succeeds = (\<lambda>ok. list_all (\<lambda>w. list_all ok [fst w..snd w]) ws) in
         ws \<noteq> [] \<and>
         currentBlockHeight s < Max (snd ` set ws) + 1 \<and>
         syncRound ok latest s =
           (if succeeds ok then Some (s\<lparr>currentBlockHeight := Max (snd ` set ws) + 1\<rparr>)
            else Some (s\<lparr>waited := waited s @ [2000]\<rparr>)) \<and>
         syncLoop [] latest s = (Still_running, s) \<and>
         syncLoop (ok # rs) latest s =
           syncLoop rs latest
             (if succeeds ok then s\<lparr>currentBlockHeight := Max (snd ` set ws) + 1\<rparr>
              else s\<lparr>waited := waited s @ [2000]\<rparr>) \<and>
         (list_all (\<lambda>f. \<not> succeeds f) fs \<longrightarrow>
            syncLoop fs latest s
              = (Still_running, s\<lparr>waited := waited s @ replicate (length fs) 2000\<rparr>) \<and>
            (succeeds ok \<longrightarrow>
               syncLoop (fs @ ok # rs) latest s =
                 syncLoop rs latest
                   (s\<lparr>currentBlockHeight := Max (snd ` set ws) + 1,
                      waited := waited s @ replicate (length fs) 2000\<rparr>))))"
      unfolding Let_def by (intro conjI a b c d e f)
  qed
  have exit: "latest < currentBlockHeight s \<longrightarrow> syncLoop rs latest s = (Exited, s)"
    by (simp add: syncLoop_exit)
  have nxt: "syncLoop rs latest s = (Still_running, s1) \<longrightarrow>
      currentBlockHeight s1 \<le> latest \<and>
      syncLoop (rs @ [ok]) latest s =
        (let ws1 = launchBatches BATCH_SIZE CONCURRENT_BATCHES (currentBlockHeight s1) latest 0 in
         syncLoop [] latest
           (if list_all (\<lambda>w. list_all ok [fst w..snd w]) ws1
            then s1\<lparr>currentBlockHeight := Max (snd ` set ws1) + 1\<rparr>
            else s1\<lparr>waited := waited s1 @ [2000]\<rparr>))"
  proof
    assume l: "syncLoop rs latest s = (Still_running, s1)"
    show "currentBlockHeight s1 \<le> latest \<and>
      syncLoop (rs @ [ok]) latest s =
        (let ws1 = launchBatches BATCH_SIZE CONCURRENT_BATCHES (currentBlockHeight s1) latest 0 in
         syncLoop [] latest
           (if list_all (\<lambda>w. list_all ok [fst w..snd w]) ws1
            then s1\<lparr>currentBlockHeight := Max (snd ` set ws1) + 1\<rparr>
            else s1\<lparr>waited := waited s1 @ [2000]\<rparr>))"
      unfolding Let_def
      by (intro conjI syncLoop_running [OF l] syncLoop_next_round [OF l])
  qed
  have no_loop: "ready \<noteq> Some True \<or> count = None \<longrightarrow> syncBlocks ready count rs s = (s, Some 5000)"
    by (intro impI syncBlocks_no_loop)
  have rp_exit: "ready_answer p = Some True \<and> count_answer p = Some latest \<and>
    syncLoop (round_outcomes p) latest s = (Exited, s') \<longrightarrow>
      run_passes (p # ps) s = run_passes ps s'"
    using run_passes_exit [of p latest s s' ps] by simp
  have rp_no_loop: "ready_answer p \<noteq> Some True \<or> count_answer p = None \<longrightarrow>
      run_passes (p # ps) s = run_passes ps s"
    by (intro impI run_passes_no_loop)
  have rp_running: "ready_answer p = Some True \<and> count_answer p = Some latest \<and>
    syncLoop (round_outcomes p) latest s = (Still_running, s1) \<longrightarrow>
      run_passes (p # ps) s = s1"
    using run_passes_running [of p latest s s1 ps] by simp
  have rp_nil: "run_passes [] s = s" by simp
  have start: "list_all (\<lambda>r. 0 \<le> height r) (tbl_blocks db) \<longrightarrow>
      currentBlockHeight initial_state \<le> currentBlockHeight (startup db initial_state) \<and>
      currentBlockHeight initial_state \<le> currentBlockHeight (run_passes ps (startup db initial_state))"
  proof
    assume nn: "list_all (\<lambda>r. 0 \<le> height r) (tbl_blocks db)"
    have a: "currentBlockHeight initial_state \<le> currentBlockHeight (startup db initial_state)"
      using startup_nonneg [OF nn, of initial_state] by (simp add: initial_state_def)
    from a run_passes_frontier [of "startup db initial_state" ps]
    show "currentBlockHeight initial_state \<le> currentBlockHeight (startup db initial_state) \<and>
      currentBlockHeight initial_state \<le> currentBlockHeight (run_passes ps (startup db initial_state))"
      by simp
  qed
  show ?thesis
    by (intro conjI round exit nxt no_loop rp_exit rp_no_loop rp_running rp_nil start
        syncLoop_frontier syncLoop_prefix_frontier syncBlocks_loop syncBlocks_frontier
        run_passes_frontier)
qed

theorem frontier_monotone_witness:
  "currentBlockHeight initial_state \<le> 249 \<and>
   syncRound (\<lambda>h. True) 249 initial_state = Some (initial_state\<lparr>currentBlockHeight := 250\<rparr>) \<and>
   syncRound (\<lambda>h. h \<noteq> 150) 249 initial_state = Some (initial_state\<lparr>waited := [2000]\<rparr>) \<and>
   syncLoop [\<lambda>h. h \<noteq> 150, \<lambda>h. h \<noteq> 150] 249 initial_state
     = (Still_running, \<lparr>currentBlockHeight = 0, waited = [2000, 2000]\<rparr>) \<and>
   syncLoop [\<lambda>h. h \<noteq> 150, \<lambda>h. h \<noteq> 150, \<lambda>h. True] 249 initial_state
     = (Exited, \<lparr>currentBlockHeight = 250, waited = [2000, 2000]\<rparr>) \<and>
   syncLoop [\<lambda>h. True] 249 \<lparr>currentBlockHeight = 250, waited = [2000, 2000]\<rparr>
     = (Exited, \<lparr>currentBlockHeight = 250, waited = [2000, 2000]\<rparr>) \<and>
   fst (syncBlocks (Some True) (Some 249) [\<lambda>h. h \<noteq> 150, \<lambda>h. h \<noteq> 150, \<lambda>h. True] initial_state)
     = \<lparr>currentBlockHeight = 250, waited = [2000, 2000]\<rparr> \<and>
   syncBlocks (Some False) (Some 249) [\<lambda>h. True] initial_state = (initial_state, Some 5000) \<and>
   run_passes
     [\<lparr>ready_answer = Some False, count_answer = Some 249, round_outcomes = [\<lambda>h. True]\<rparr>,
      \<lparr>ready_answer = Some True, count_answer = Some 249,
        round_outcomes = [\<lambda>h. h \<noteq> 150, \<lambda>h. h \<noteq> 150, \<lambda>h. True]\<rparr>]
     initial_state
     = \<lparr>currentBlockHeight = 250, waited = [2000, 2000]\<rparr> \<and>
   list_all (\<lambda>r. 0 \<le> height r)
     (tbl_blocks \<lparr>tbl_blocks = [\<lparr>height = 7, hash = ''h7'', timestamp = 0, bitcoin_block_height = 0\<rparr>],
                  tbl_transactions = []\<rparr>) \<and>
   currentBlockHeight initial_state
     \<le> currentBlockHeight
         (startup \<lparr>tbl_blocks = [\<lparr>height = 7, hash = ''h7'', timestamp = 0, bitcoin_block_height = 0\<rparr>],
                  tbl_transactions = []\<rparr> initial_state)"
proof -
  let ?F = "\<lambda>h::int. h \<noteq> 150"
  let ?T = "\<lambda>h::int. True"
  let ?end = "\<lparr>currentBlockHeight = 250, waited = [2000, 2000]\<rparr>"
  let ?p1 = "\<lparr>ready_answer = Some False, count_answer = Some 249, round_outcomes = [?T]\<rparr>"
  let ?p2 = "\<lparr>ready_answer = Some True, count_answer = Some 249, round_outcomes = [?F, ?F, ?T]\<rparr>"
  have ws: "launchBatches BATCH_SIZE CONCURRENT_BATCHES 0 249 0 = [(0, 99), (100, 199), (200, 249)]"
    by (simp add: launchBatches.simps BATCH_SIZE_def CONCURRENT_BATCHES_def)
  have cur0: "currentBlockHeight initial_state = 0" by (simp add: initial_state_def)
  have le: "currentBlockHeight initial_state \<le> 249" by (simp add: initial_state_def)
  have gt: "249 < currentBlockHeight ?end" by simp
  have nn: "list_all (\<lambda>r. 0 \<le> height r)
     (tbl_blocks \<lparr>tbl_blocks = [\<lparr>height = 7, hash = ''h7'', timestamp = 0, bitcoin_block_height = 0\<rparr>],
                  tbl_transactions = []\<rparr>)" by simp
  have bad: "\<not> list_all (\<lambda>w. list_all ?F [fst w..snd w]) [(0, 99), (100, 199), (200, 249::int)]"
    by (simp add: list_all_iff)
  have good: "list_all (\<lambda>w. list_all ?T [fst w..snd w]) [(0, 99), (100, 199), (200, 249::int)]"
    by (simp add: list_all_iff)
  have fails: "list_all (\<lambda>f. \<not> list_all (\<lambda>w. list_all f [fst w..snd w]) [(0, 99), (100, 199), (200, 249::int)])
      [?F, ?F]"
    by (simp add: list_all_iff)
  note rT = frontier_monotone [where s = initial_state and latest = 249 and ok = ?T
      and fs = "[?F, ?F]" and rs = "[]", THEN conjunct1, THEN mp, OF le, unfolded Let_def cur0 ws]
  note rF = frontier_monotone [where s = initial_state and latest = 249 and ok = ?F,
      THEN conjunct1, THEN mp, OF le, unfolded Let_def cur0 ws]
  from rT [THEN conjunct2, THEN conjunct2, THEN conjunct1] good
  have a: "syncRound ?T 249 initial_state = Some (initial_state\<lparr>currentBlockHeight := 250\<rparr>)"
    by simp
  from rF [THEN conjunct2, THEN conjunct2, THEN conjunct1] bad
  have b: "syncRound ?F 249 initial_state = Some (initial_state\<lparr>waited := [2000]\<rparr>)"
    by (simp add: initial_state_def)
  note x1 = frontier_monotone [where s = ?end and latest = 249 and rs = "[?T]",
      THEN conjunct2, THEN conjunct1, THEN mp, OF gt]
  note x0 = frontier_monotone [where s = ?end and latest = 249 and rs = "[]",
      THEN conjunct2, THEN conjunct1, THEN mp, OF gt]
  note retry = rT [THEN conjunct2, THEN conjunct2, THEN conjunct2, THEN conjunct2, THEN conjunct2,
      THEN mp, OF fails]
  have s1: "initial_state\<lparr>waited := waited initial_state @ replicate (length [?F, ?F]) 2000\<rparr>
      = \<lparr>currentBlockHeight = 0, waited = [2000, 2000]\<rparr>"
    by (simp add: initial_state_def)
  have s2: "initial_state\<lparr>currentBlockHeight := Max (snd ` set [(0::int, 99::int), (100, 199), (200, 249)]) + 1,
      waited := waited initial_state @ replicate (length [?F, ?F]) 2000\<rparr> = ?end"
    by (simp add: initial_state_def)
  have c: "syncLoop [?F, ?F] 249 initial_state
      = (Still_running, \<lparr>currentBlockHeight = 0, waited = [2000, 2000]\<rparr>)"
    using retry [THEN conjunct1] unfolding s1 .
  have d: "syncLoop [?F, ?F, ?T] 249 initial_state = (Exited, ?end)"
    using retry [THEN conjunct2, THEN mp, OF good] unfolding s2 x0 append_Cons append_Nil .
  note sb = frontier_monotone [where s = initial_state and latest = 249 and rs = "[?F, ?F, ?T]",
      THEN conjunct2, THEN conjunct2, THEN conjunct2, THEN conjunct2, THEN conjunct2, THEN conjunct1]
  have e: "fst (syncBlocks (Some True) (Some 249) [?F, ?F, ?T] initial_state) = ?end"
    using sb unfolding d by simp
  have f: "syncBlocks (Some False) (Some 249) [?T] initial_state = (initial_state, Some 5000)"
    by (rule frontier_monotone [where s = initial_state and ready = "Some False" and count = "Some 249"
      and rs = "[?T]", THEN conjunct2, THEN conjunct2, THEN conjunct2, THEN conjunct2, THEN conjunct2, THEN conjunct2, THEN conjunct1, THEN mp]) simp
  have r1: "run_passes [?p1, ?p2] initial_state = run_passes [?p2] initial_state"
    by (rule frontier_monotone [where p = ?p1 and ps = "[?p2]" and s = initial_state,
      THEN conjunct2, THEN conjunct2, THEN conjunct2, THEN conjunct2, THEN conjunct2, THEN conjunct2, THEN conjunct2, THEN conjunct2, THEN conjunct2, THEN conjunct1, THEN mp]) simp
  have r2: "run_passes [?p2] initial_state = run_passes [] ?end"
    by (rule frontier_monotone [where p = ?p2 and ps = "[]" and s = initial_state and latest = 249
      and s' = ?end,
      THEN conjunct2, THEN conjunct2, THEN conjunct2, THEN conjunct2, THEN conjunct2, THEN conjunct2, THEN conjunct2, THEN conjunct2, THEN conjunct1, THEN mp]) (simp only: pass.select_convs d simp_thms)
  have r3: "run_passes [] ?end = ?end"
    by (rule frontier_monotone [where s = ?end,
      THEN conjunct2, THEN conjunct2, THEN conjunct2, THEN conjunct2, THEN conjunct2, THEN conjunct2, THEN conjunct2, THEN conjunct2, THEN conjunct2, THEN conjunct2, THEN conjunct2, THEN conjunct1])
  from r1 r2 r3 have g: "run_passes [?p1, ?p2] initial_state = ?end" by (simp only:)
  note st = frontier_monotone [where db = "\<lparr>tbl_blocks = [\<lparr>height = 7, hash = ''h7'', timestamp = 0, bitcoin_block_height = 0\<rparr>],
                  tbl_transactions = []\<rparr>", THEN conjunct2, THEN conjunct2, THEN conjunct2, THEN conjunct2, THEN conjunct2, THEN conjunct2, THEN conjunct2, THEN conjunct2, THEN conjunct2, THEN conjunct2, THEN conjunct2, THEN conjunct2, THEN conjunct2,
      THEN mp, OF nn, THEN conjunct1]
  show ?thesis
    by (intro conjI le a b c d x1 e f g nn st)
qed

subsection \<open>The delay after a pass\<close>



subsection \<open>The frontier at startup\<close>

text \<open>
  Claim C3 says that startup sets the frontier to the persisted maximum height plus one.
  Evaluated on a store holding the heights 4 and 5, \<open>startup\<close> sets it to 5, the persisted
  maximum itself; on the empty store it sets it to 0.
\<close>

theorem startup_frontier_is_persisted_max:
  "currentBlockHeight
     (startup \<lparr>tbl_blocks = [\<lparr>height = 4, hash = ''h4'', timestamp = 0, bitcoin_block_height = 0\<rparr>,
                              \<lparr>height = 5, hash = ''h5'', timestamp = 0, bitcoin_block_height = 0\<rparr>],
               tbl_transactions = []\<rparr> initial_state) = 5 \<and>
   currentBlockHeight (startup \<lparr>tbl_blocks = [], tbl_transactions = []\<rparr> initial_state) = 0"
  by (simp add: startup_def select_max_height_def)

section \<open>Properties of the store\<close>

subsection \<open>Upserts keep a table keyed\<close>

lemma keys_upsert:
  "map key (upsert key r t) = (if key r \<in> key ` set t then map key t else map key t @ [key r])"
  by (induction t) auto

lemma key_set_upsert: "key ` set (upsert key r t) = insert (key r) (key ` set t)"
  using arg_cong [OF keys_upsert [of key r t], of set] by (auto simp del: keys_upsert)

lemma distinct_upsert:
  "distinct (map key t) \<Longrightarrow> distinct (map key (upsert key r t))"
  by (simp add: keys_upsert)

lemma set_upsert_subset: "set (upsert key r t) \<subseteq> insert r (set t)"
  by (induction t) auto

lemma find_upsert:
  "find (\<lambda>x. key x = k) (upsert key r t) = (if key r = k then Some r else find (\<lambda>x. key x = k) t)"
  by (induction t) auto

lemma keys_fold_upsert_present:
  "key ` set rs \<subseteq> key ` set t \<Longrightarrow> map key (fold (upsert key) rs t) = map key t"
proof (induction rs arbitrary: t)
  case Nil
  show ?case by simp
next
  case (Cons r rs)
  from Cons.prems have in_t: "key r \<in> key ` set t" and rest: "key ` set rs \<subseteq> key ` set t" by auto
  from rest have "key ` set rs \<subseteq> key ` set (upsert key r t)" by (auto simp: key_set_upsert)
  from Cons.IH [OF this] in_t show ?case by (simp add: keys_upsert)
qed

lemma keys_fold_upsert_cong:
  "map key rs1 = map key rs2 \<Longrightarrow> map key t1 = map key t2 \<Longrightarrow>
     map key (fold (upsert key) rs1 t1) = map key (fold (upsert key) rs2 t2)"
proof (induction rs1 arbitrary: rs2 t1 t2)
  case Nil
  then show ?case by simp
next
  case (Cons r rs1)
  then obtain r' rs2' where rs2: "rs2 = r' # rs2'" "key r = key r'" "map key rs1 = map key rs2'"
    by (cases rs2) auto
  from Cons.prems(2) have "key ` set t1 = key ` set t2" by (metis set_map)
  then have "map key (upsert key r t1) = map key (upsert key r' t2)"
    using Cons.prems(2) rs2(2) by (simp add: keys_upsert)
  from Cons.IH [OF rs2(3) this] show ?case by (simp add: rs2(1))
qed

lemma key_set_fold_upsert:
  "key ` set (fold (upsert key) rs t) = key ` set t \<union> key ` set rs"
  by (induction rs arbitrary: t) (auto simp: key_set_upsert)

lemma distinct_fold_upsert:
  "distinct (map key t) \<Longrightarrow> distinct (map key (fold (upsert key) rs t))"
proof (induction rs arbitrary: t)
  case Nil
  then show ?case by simp
next
  case (Cons r rs)
  from Cons.IH [OF distinct_upsert [OF Cons.prems, of r]] show ?case by simp
qed

lemma set_fold_upsert_subset: "set (fold (upsert key) rs t) \<subseteq> set t \<union> set rs"
proof (induction rs arbitrary: t)
  case Nil
  show ?case by simp
next
  case (Cons r rs)
  from Cons.IH [of "upsert key r t"] set_upsert_subset [of key r t] show ?case by auto
qed

lemma find_append_cases:
  "find P (xs @ ys) = (case find P xs of Some x \<Rightarrow> Some x | None \<Rightarrow> find P ys)"
  by (induction xs) auto

lemma find_fold_upsert:
  "find (\<lambda>x. key x = k) (fold (upsert key) rs t) =
     (case find (\<lambda>x. key x = k) (rev rs) of Some r \<Rightarrow> Some r | None \<Rightarrow> find (\<lambda>x. key x = k) t)"
proof (induction rs arbitrary: t)
  case Nil
  show ?case by simp
next
  case (Cons r rs)
  show ?case
    by (simp add: Cons.IH find_upsert find_append_cases split: option.splits)
qed

lemma keyed_table_eqI:
  "distinct (map key t1) \<Longrightarrow> map key t1 = map key t2 \<Longrightarrow>
     (\<And>k. find (\<lambda>x. key x = k) t1 = find (\<lambda>x. key x = k) t2) \<Longrightarrow> t1 = t2"
proof (induction t1 arbitrary: t2)
  case Nil
  then show ?case by simp
next
  case (Cons x t1)
  then obtain y t2' where t2: "t2 = y # t2'" "key x = key y" "map key t1 = map key t2'"
    by (cases t2) auto
  from Cons.prems(3) [of "key x"] t2 have xy: "x = y" by simp
  have "find (\<lambda>z. key z = k) t1 = find (\<lambda>z. key z = k) t2'" for k
  proof (cases "k = key x")
    case True
    from Cons.prems(1) have "key x \<notin> set (map key t1)" by simp
    moreover from this t2(3) have "key x \<notin> set (map key t2')" by simp
    ultimately have "find (\<lambda>z. key z = key x) t1 = None \<and> find (\<lambda>z. key z = key x) t2' = None"
      unfolding find_None_iff set_map by (metis imageI)
    then show ?thesis by (simp add: True)
  next
    case False
    with Cons.prems(3) [of k] t2 xy show ?thesis by auto
  qed
  with Cons.IH [of t2'] Cons.prems(1) t2(3) have "t1 = t2'" by simp
  with xy t2 show ?case by simp
qed

lemma fold_upsert_twice:
  assumes "distinct (map key t)" "map key rs1 = map key rs2"
  shows "fold (upsert key) rs2 (fold (upsert key) rs1 t) = fold (upsert key) rs2 t"
proof (rule keyed_table_eqI [where key = key])
  show "distinct (map key (fold (upsert key) rs2 (fold (upsert key) rs1 t)))"
    by (intro distinct_fold_upsert assms)
  have "map key (fold (upsert key) rs2 (fold (upsert key) rs1 t)) = map key (fold (upsert key) rs1 t)"
  proof (rule keys_fold_upsert_present)
    from assms(2) have "key ` set rs2 = key ` set rs1" by (metis set_map)
    then show "key ` set rs2 \<subseteq> key ` set (fold (upsert key) rs1 t)"
      by (simp add: key_set_fold_upsert)
  qed
  also have "\<dots> = map key (fold (upsert key) rs2 t)"
    by (rule keys_fold_upsert_cong [OF assms(2) refl])
  finally show "map key (fold (upsert key) rs2 (fold (upsert key) rs1 t)) = map key (fold (upsert key) rs2 t)" .
  fix k
  show "find (\<lambda>x. key x = k) (fold (upsert key) rs2 (fold (upsert key) rs1 t)) =
        find (\<lambda>x. key x = k) (fold (upsert key) rs2 t)"
  proof (cases "find (\<lambda>x. key x = k) (rev rs2)")
    case (Some r)
    then show ?thesis by (simp add: find_fold_upsert)
  next
    case None
    then have "k \<notin> set (map key rs2)" by (auto simp: find_None_iff)
    with assms(2) have "k \<notin> set (map key rs1)" by simp
    then have "find (\<lambda>x. key x = k) (rev rs1) = None" by (auto simp: find_None_iff)
    with None show ?thesis by (simp add: find_fold_upsert)
  qed
qed

lemma upsert_twice:
  "key r1 = key r2 \<Longrightarrow> upsert key r2 (upsert key r1 t) = upsert key r2 t"
  by (induction t) auto

lemma filter_keyed:
  "distinct (map key t) \<Longrightarrow> find (\<lambda>x. key x = k) t = Some r \<Longrightarrow> filter (\<lambda>x. key x = k) t = [r]"
proof (induction t)
  case Nil
  then show ?case by simp
next
  case (Cons x t)
  show ?case
  proof (cases "key x = k")
    case True
    with Cons.prems have "x = r" "k \<notin> key ` set t" by auto
    then have "filter (\<lambda>x. key x = k) t = []" by (auto simp: filter_empty_conv)
    with True \<open>x = r\<close> show ?thesis by simp
  next
    case False
    with Cons show ?thesis by simp
  qed
qed

lemma find_filter_hd:
  "find P xs = (case filter P xs of [] \<Rightarrow> None | x # ys \<Rightarrow> Some x)"
  by (induction xs) auto

section \<open>Properties of \<open>storeBlock\<close>\<close>

subsection \<open>Statements on a connection\<close>

lemma client_query_insert:
  assumes "open_txn c = Some w" "q = InsertBlock b \<or> q = InsertTx t"
    and "client_query f q c = (r, c')"
  shows "visible c' = visible c \<and> issued c' = issued c @ [q] \<and>
         (r = Inr () \<longleftrightarrow> \<not> stmt_fails f q) \<and>
         open_txn c' = Some (if stmt_fails f q then w else w @ [q])"
  using assms by (auto simp: client_query_def exec_stmt_def Let_def split: if_splits)

lemma queries_of_inserts:
  "list_all (\<lambda>q. \<exists>t. q = InsertTx t) (fst (queries_of h rs))"
  by (induction h rs rule: queries_of.induct) (auto split: prod.splits)

lemma run_queries_inserts:
  assumes "open_txn c = Some w" "list_all (\<lambda>q. \<exists>t. q = InsertTx t) qs"
    and "run_queries f qs c = (r, c')"
  shows "visible c' = visible c \<and> issued c' = issued c @ qs \<and> open_txn c' \<noteq> None \<and>
         (r = Inr () \<longleftrightarrow> list_all (\<lambda>q. \<not> stmt_fails f q) qs) \<and>
         (r = Inr () \<longrightarrow> open_txn c' = Some (w @ qs))"
  using assms
proof (induction qs arbitrary: c w)
  case Nil
  then show ?case by auto
next
  case (Cons q qs)
  obtain r1 c1 where q1: "client_query f q c = (r1, c1)" by (cases "client_query f q c")
  from Cons.prems(2) obtain t where t: "q = InsertTx t" by auto
  note step = client_query_insert [OF Cons.prems(1) _ q1, of undefined t]
  show ?case
  proof (cases r1)
    case (Inl e)
    with q1 Cons.prems(3) have "r = Inl e" "c' = c1\<lparr>issued := issued c1 @ qs\<rparr>" by auto
    with step t Inl show ?thesis by auto
  next
    case (Inr u)
    with q1 Cons.prems(3) have rest: "run_queries f qs c1 = (r, c')" by auto
    from step t Inr have c1: "open_txn c1 = Some (w @ [q])" "\<not> stmt_fails f q"
      "visible c1 = visible c" "issued c1 = issued c @ [q]" by auto
    from Cons.IH [OF c1(1) _ rest] Cons.prems(2) c1 show ?thesis by auto
  qed
qed

subsection \<open>Resolving a sub-batch\<close>

lemma stored_rows_Nil [simp]: "stored_rows nd h [] = []"
  by (simp add: stored_rows_def)

lemma stored_rows_append: "stored_rows nd h (xs @ ys) = stored_rows nd h xs @ stored_rows nd h ys"
  by (simp add: stored_rows_def)

lemma all_resolved_append: "all_resolved nd (xs @ ys) \<longleftrightarrow> all_resolved nd xs \<and> all_resolved nd ys"
  by (simp add: all_resolved_def)

lemma resolve_all_queries:
  "resolve_all nd ids = Inr rs \<Longrightarrow>
     (\<not> snd (queries_of h rs) \<longleftrightarrow> all_resolved nd ids) \<and>
     (all_resolved nd ids \<longrightarrow> fst (queries_of h rs) = map InsertTx (stored_rows nd h ids))"
proof (induction ids arbitrary: rs)
  case Nil
  then show ?case by (auto simp: all_resolved_def)
next
  case (Cons i ids)
  from Cons.prems obtain tx rs' where
    tx: "getProcessedTransaction nd i = Inr tx" and rs': "resolve_all nd ids = Inr rs'"
    and rs: "rs = (i, tx) # rs'"
    by (auto split: sum.splits)
  from Cons.IH [OF rs'] show ?case
    by (cases tx) (auto simp: rs tx all_resolved_def stored_rows_def split: prod.splits)
qed

lemma resolve_all_Inl:
  "resolve_all nd ids = Inl e \<Longrightarrow> \<not> all_resolved nd ids"
  by (induction ids) (auto simp: all_resolved_def split: sum.splits)

lemma storeBatch_result:
  assumes "open_txn c = Some w" "storeBatch nd f h batch c = (r, c')"
  shows "visible c' = visible c \<and> open_txn c' \<noteq> None \<and>
         (r = Inr () \<longleftrightarrow> all_resolved nd batch \<and>
            list_all (\<lambda>t. \<not> stmt_fails f (InsertTx t)) (stored_rows nd h batch)) \<and>
         (r = Inr () \<longrightarrow> issued c' = issued c @ map InsertTx (stored_rows nd h batch) \<and>
            open_txn c' = Some (w @ map InsertTx (stored_rows nd h batch)))"
proof (cases "resolve_all nd batch")
  case (Inl e)
  with assms resolve_all_Inl [OF Inl] show ?thesis by (auto simp: storeBatch_def)
next
  case (Inr rs)
  obtain qs threw where q: "queries_of h rs = (qs, threw)" by (cases "queries_of h rs")
  obtain r1 c1 where run: "run_queries f qs c = (r1, c1)" by (cases "run_queries f qs c")
  have ins: "list_all (\<lambda>q. \<exists>t. q = InsertTx t) qs" using queries_of_inserts [of h rs] q by simp
  note rq = run_queries_inserts [OF assms(1) ins run]
  note ra = resolve_all_queries [OF Inr, of h]
  from assms(2) Inr q run have res: "r = (if threw then Inl TypeError else r1)" "c' = c1"
    by (auto simp: storeBatch_def split: if_splits)
  show ?thesis
  proof (cases threw)
    case True
    with ra q have "\<not> all_resolved nd batch" by simp
    with res rq True show ?thesis by auto
  next
    case False
    with ra q have ar: "all_resolved nd batch" "qs = map InsertTx (stored_rows nd h batch)" by auto
    with res rq False show ?thesis by (auto simp: list_all_iff)
  qed
qed


subsection \<open>The loop over the sub-batches\<close>

lemma storeTransactions_result:
  assumes "open_txn c = Some w" "storeTransactions nd f h txs i c = (r, c')"
  shows "visible c' = visible c \<and> open_txn c' \<noteq> None \<and>
         (r = Inr () \<longleftrightarrow> all_resolved nd (drop i txs) \<and>
            list_all (\<lambda>t. \<not> stmt_fails f (InsertTx t)) (stored_rows nd h (drop i txs))) \<and>
         (r = Inr () \<longrightarrow> issued c' = issued c @ map InsertTx (stored_rows nd h (drop i txs)) \<and>
            open_txn c' = Some (w @ map InsertTx (stored_rows nd h (drop i txs))))"
  using assms
proof (induction nd f h txs i c arbitrary: w rule: storeTransactions.induct)
  case (1 nd f h txs i c)
  show ?case
  proof (cases "i < length txs")
    case False
    with "1.prems" show ?thesis
      by (auto simp: storeTransactions.simps [of nd f h txs i c] all_resolved_def)
  next
    case True
    let ?batch = "take 50 (drop i txs)"
    obtain r1 c1 where b: "storeBatch nd f h ?batch c = (r1, c1)"
      by (cases "storeBatch nd f h ?batch c")
    note sb = storeBatch_result [OF "1.prems"(1) b]
    have split: "drop i txs = ?batch @ drop (i + 50) txs"
      by (metis add.commute append_take_drop_id drop_drop)
    show ?thesis
    proof (cases r1)
      case (Inl e)
      with "1.prems"(2) True b have "r = Inl e" "c' = c1"
        by (auto simp: storeTransactions.simps [of nd f h txs i c])
      with sb Inl show ?thesis
        by (subst (1 2 3 4) split) (auto simp: all_resolved_append stored_rows_append)
    next
      case (Inr u)
      with "1.prems"(2) True b have rest: "storeTransactions nd f h txs (i + 50) c1 = (r, c')"
        by (auto simp: storeTransactions.simps [of nd f h txs i c])
      from sb Inr obtain w1 where w1: "open_txn c1 = Some w1"
        and w1': "w1 = w @ map InsertTx (stored_rows nd h ?batch)" by auto
      note ih = "1.IH" [OF True b [symmetric] Inr w1 rest]
      from sb Inr ih w1 w1' show ?thesis
        by (subst (1 2 3 4) split) (auto simp: all_resolved_append stored_rows_append)
    qed
  qed
qed


subsection \<open>The whole of \<open>storeBlock\<close>\<close>

lemma client_query_BEGIN:
  assumes "open_txn c = None" "client_query f BEGIN c = (r, c')"
  shows "visible c' = visible c \<and> issued c' = issued c @ [BEGIN] \<and>
         (r = Inr () \<longleftrightarrow> \<not> stmt_fails f BEGIN) \<and>
         open_txn c' = (if stmt_fails f BEGIN then None else Some [])"
  using assms by (auto simp: client_query_def exec_stmt_def Let_def split: if_splits)

lemma client_query_COMMIT:
  assumes "open_txn c = Some w" "client_query f COMMIT c = (r, c')"
  shows "issued c' = issued c @ [COMMIT] \<and> open_txn c' = None \<and>
         (r = Inr () \<longleftrightarrow> \<not> stmt_fails f COMMIT) \<and>
         visible c' = (if stmt_fails f COMMIT then visible c else fold apply_insert w (visible c))"
  using assms by (auto simp: client_query_def exec_stmt_def Let_def split: if_splits)

lemma client_query_ROLLBACK:
  assumes "client_query f ROLLBACK c = (r, c')"
  shows "visible c' = visible c \<and> issued c' = issued c @ [ROLLBACK] \<and> open_txn c' = None \<and>
         (r = Inr () \<longleftrightarrow> \<not> stmt_fails f ROLLBACK)"
  using assms by (auto simp: client_query_def exec_stmt_def Let_def split: if_splits)

lemma storeBlock_try_result:
  assumes clean: "open_txn c = None" and run: "storeBlock_try nd f blk c = (r, c')"
  shows "(r = Inr () \<longleftrightarrow>
            \<not> stmt_fails f BEGIN \<and> \<not> stmt_fails f (InsertBlock (insertBlock_row blk)) \<and>
            all_resolved nd (transactions blk) \<and>
            list_all (\<lambda>t. \<not> stmt_fails f (InsertTx t)) (stored_rows nd (height blk) (transactions blk)) \<and>
            \<not> stmt_fails f COMMIT) \<and>
         (r = Inr () \<longrightarrow>
            open_txn c' = None \<and> issued c' = issued c @ store_statements nd blk \<and>
            visible c' = fold apply_insert
               (InsertBlock (insertBlock_row blk)
                  # map InsertTx (stored_rows nd (height blk) (transactions blk))) (visible c)) \<and>
         (r \<noteq> Inr () \<longrightarrow> visible c' = visible c)"
proof -
  obtain r1 c1 where q1: "client_query f BEGIN c = (r1, c1)" by (cases "client_query f BEGIN c")
  note b = client_query_BEGIN [OF clean q1]
  show ?thesis
  proof (cases r1)
    case (Inl e)
    with run q1 have "r = Inl e" "c' = c1" by (auto simp: storeBlock_try_def)
    with b Inl show ?thesis by auto
  next
    case Inr
    with b have ok1: "\<not> stmt_fails f BEGIN" and o1: "open_txn c1 = Some []" by auto
    let ?ib = "InsertBlock (insertBlock_row blk)"
    obtain r2 c2 where q2: "client_query f ?ib c1 = (r2, c2)" by (cases "client_query f ?ib c1")
    note ib = client_query_insert [OF o1 _ q2, of "insertBlock_row blk" undefined]
    show ?thesis
    proof (cases r2)
      case (Inl e)
      with run q1 q2 \<open>r1 = Inr _\<close> have "r = Inl e" "c' = c2" by (auto simp: storeBlock_try_def)
      with b ib Inl show ?thesis by auto
    next
      case (Inr u2)
      with ib have ok2: "\<not> stmt_fails f ?ib" and o2: "open_txn c2 = Some [?ib]"
        by auto
      obtain r3 c3 where q3: "storeTransactions nd f (height blk) (transactions blk) 0 c2 = (r3, c3)"
        by (cases "storeTransactions nd f (height blk) (transactions blk) 0 c2")
      note st = storeTransactions_result [OF o2 q3]
      show ?thesis
      proof (cases r3)
        case (Inl e)
        with run q1 q2 q3 \<open>r1 = Inr _\<close> \<open>r2 = Inr u2\<close> have "r = Inl e" "c' = c3"
          by (auto simp: storeBlock_try_def)
        with b ib st Inl show ?thesis by auto
      next
        case (Inr u3)
        with run q1 q2 q3 \<open>r1 = Inr _\<close> \<open>r2 = Inr u2\<close> have q4: "client_query f COMMIT c3 = (r, c')"
          by (auto simp: storeBlock_try_def)
        from st Inr obtain w3 where o3: "open_txn c3 = Some w3"
          and w3: "w3 = ?ib # map InsertTx (stored_rows nd (height blk) (transactions blk))"
          by auto
        note cm = client_query_COMMIT [OF o3 q4]
        from b ib st cm Inr ok1 ok2 w3 show ?thesis
          by (auto simp: store_statements_def)
      qed
    qed
  qed
qed

lemma storeBlock_result:
  assumes clean: "open_txn c = None" and run: "storeBlock nd f blk c = (r, c')"
  shows "open_txn c' = None \<and>
         (r = Inr () \<longleftrightarrow> store_succeeds nd f blk) \<and>
         (r = Inr () \<longrightarrow>
            issued c' = issued c @ store_statements nd blk \<and>
            visible c' = fold apply_insert
               (InsertBlock (insertBlock_row blk)
                  # map InsertTx (stored_rows nd (height blk) (transactions blk))) (visible c)) \<and>
         (r \<noteq> Inr () \<longrightarrow> visible c' = visible c)"
proof (cases "connect_fails f")
  case True
  with run clean show ?thesis by (auto simp: storeBlock_def store_succeeds_def)
next
  case False
  obtain r1 c1 where t: "storeBlock_try nd f blk c = (r1, c1)" by (cases "storeBlock_try nd f blk c")
  note tr = storeBlock_try_result [OF clean t]
  show ?thesis
  proof (cases r1)
    case (Inr u)
    with run t False have "r = Inr ()" "c' = c1" "r1 = Inr ()" by (auto simp: storeBlock_def)
    with tr False show ?thesis by (simp add: store_succeeds_def)
  next
    case (Inl e)
    obtain r2 c2 where rb: "client_query f ROLLBACK c1 = (r2, c2)" by (cases "client_query f ROLLBACK c1")
    note rbk = client_query_ROLLBACK [OF rb]
    from run t False Inl rb have "r \<noteq> Inr ()" "c' = c2"
      by (auto simp: storeBlock_def split: sum.splits)
    with tr rbk Inl show ?thesis by (auto simp: store_succeeds_def)
  qed
qed

lemma storeBlock_rethrows:
  assumes "\<not> connect_fails f" "storeBlock_try nd f blk c = (Inl e, c1)" "\<not> stmt_fails f ROLLBACK"
  shows "fst (storeBlock nd f blk c) = Inl e"
  using assms by (auto simp: storeBlock_def client_query_def Let_def)

subsection \<open>The effect of a successful \<open>storeBlock\<close> on the tables\<close>

lemma fold_apply_insert_txs:
  "fold apply_insert (map InsertTx rows) db =
     db\<lparr>tbl_transactions := fold (upsert txid) rows (tbl_transactions db)\<rparr>"
  by (induction rows arbitrary: db) (simp_all add: apply_insert_def upsert_tx_def)

lemma store_effect:
  "fold apply_insert (InsertBlock b # map InsertTx rows) db =
     db\<lparr>tbl_blocks := upsert height b (tbl_blocks db),
        tbl_transactions := fold (upsert txid) rows (tbl_transactions db)\<rparr>"
  by (simp add: fold_apply_insert_txs) (simp add: apply_insert_def upsert_block_def)

lemma insertTx_row_key: "txid (insertTx_row h i tx) = i \<and> block_height (insertTx_row h i tx) = h"
  by (simp add: insertTx_row_def)

lemma stored_rows_txids:
  "all_resolved nd ids \<Longrightarrow> map txid (stored_rows nd h ids) = ids"
  by (induction ids)
    (auto simp: all_resolved_def stored_rows_def insertTx_row_key split: sum.splits option.splits)

lemma stored_rows_member:
  "r \<in> set (stored_rows nd h ids) \<Longrightarrow>
     \<exists>tx. getProcessedTransaction nd (txid r) = Inr (Some tx) \<and> r = insertTx_row h (txid r) tx"
proof -
  assume "r \<in> set (stored_rows nd h ids)"
  then obtain i where "i \<in> set ids"
    and "r \<in> set (case getProcessedTransaction nd i of
                      Inr (Some tx) \<Rightarrow> [insertTx_row h i tx] | _ \<Rightarrow> [])"
    unfolding stored_rows_def by auto
  then obtain tx where "getProcessedTransaction nd i = Inr (Some tx)" "r = insertTx_row h i tx"
    by (cases "getProcessedTransaction nd i"; cases "projr (getProcessedTransaction nd i)") auto
  moreover from this have "txid r = i" by (simp add: insertTx_row_key)
  ultimately show ?thesis by auto
qed

lemma stored_rows_block_height:
  "r \<in> set (stored_rows nd h ids) \<Longrightarrow> block_height r = h"
proof -
  assume "r \<in> set (stored_rows nd h ids)"
  from stored_rows_member [OF this] obtain tx where "r = insertTx_row h (txid r) tx" by blast
  then have "block_height r = block_height (insertTx_row h (txid r) tx)" by simp
  then show ?thesis by (simp add: insertTx_row_key)
qed

lemma store_effect_keys:
  assumes "primary_keys db"
  shows "primary_keys (fold apply_insert (InsertBlock b # map InsertTx rows) db)"
  using assms distinct_upsert [of height "tbl_blocks db" b]
    distinct_fold_upsert [of txid "tbl_transactions db" rows]
  unfolding store_effect primary_keys_def by simp

lemma store_effect_twice:
  assumes "primary_keys db" "height b1 = height b2" "map txid rows1 = map txid rows2"
  shows "fold apply_insert (InsertBlock b2 # map InsertTx rows2)
           (fold apply_insert (InsertBlock b1 # map InsertTx rows1) db)
         = fold apply_insert (InsertBlock b2 # map InsertTx rows2) db"
proof -
  from assms(1) have d: "distinct (map txid (tbl_transactions db))" by (simp add: primary_keys_def)
  show ?thesis
    unfolding store_effect
    by (simp add: upsert_twice [of height, OF assms(2)] fold_upsert_twice [OF d assms(3)])
qed

lemma store_effect_block_row:
  assumes "primary_keys db"
  shows "filter (\<lambda>x. height x = height b)
            (tbl_blocks (fold apply_insert (InsertBlock b # map InsertTx rows) db)) = [b]"
proof -
  from assms have "distinct (map height (upsert height b (tbl_blocks db)))"
    by (simp add: primary_keys_def distinct_upsert del: distinct_map)
  from filter_keyed [OF this, of "height b" b] show ?thesis
    unfolding store_effect by (simp add: find_upsert)
qed

lemma store_effect_tx_row:
  assumes "primary_keys db" "all_resolved nd ids" "i \<in> set ids"
  shows "\<exists>tx. getProcessedTransaction nd i = Inr (Some tx) \<and>
           filter (\<lambda>t. txid t = i)
             (tbl_transactions (fold apply_insert (InsertBlock b # map InsertTx (stored_rows nd h ids)) db))
           = [insertTx_row h i tx]"
proof -
  let ?rows = "stored_rows nd h ids"
  let ?t = "fold (upsert txid) ?rows (tbl_transactions db)"
  from assms(2,3) have "i \<in> set (map txid ?rows)" by (simp add: stored_rows_txids)
  then have "i \<in> set (map txid (rev ?rows))" by simp
  then obtain r where r: "find (\<lambda>x. txid x = i) (rev ?rows) = Some r"
    by (cases "find (\<lambda>x. txid x = i) (rev ?rows)") (auto simp: find_None_iff)
  then have "r \<in> set (rev ?rows)" "txid r = i"
    unfolding find_Some_iff by (metis nth_mem)+
  then have "r \<in> set ?rows" "txid r = i" by simp_all
  with stored_rows_member [of r nd h ids] obtain tx where
    tx: "getProcessedTransaction nd i = Inr (Some tx)" "r = insertTx_row h i tx" by auto
  have "find (\<lambda>x. txid x = i) ?t = Some r" by (simp add: find_fold_upsert r)
  moreover from assms(1) have "distinct (map txid ?t)"
    by (intro distinct_fold_upsert) (simp add: primary_keys_def)
  ultimately have "filter (\<lambda>t. txid t = i) ?t = [r]" by (rule filter_keyed [rotated])
  with tx show ?thesis unfolding store_effect by simp
qed

lemma store_effect_parents:
  assumes "parents_present db" "list_all (\<lambda>r. block_height r = height b) rows"
  shows "parents_present (fold apply_insert (InsertBlock b # map InsertTx rows) db)"
proof -
  let ?bs = "upsert height b (tbl_blocks db)"
  let ?ts = "fold (upsert txid) rows (tbl_transactions db)"
  have hs: "height ` set ?bs = insert (height b) (height ` set (tbl_blocks db))"
    by (rule key_set_upsert)
  have "\<exists>x \<in> set ?bs. height x = block_height t" if t: "t \<in> set ?ts" for t
  proof -
    from t set_fold_upsert_subset [of txid rows "tbl_transactions db"]
    consider "t \<in> set (tbl_transactions db)" | "t \<in> set rows" by auto
    then have "block_height t \<in> height ` set ?bs"
    proof cases
      case 1
      with assms(1) obtain x where "x \<in> set (tbl_blocks db)" "height x = block_height t"
        unfolding parents_present_def list_all_iff list_ex_iff by blast
      then have "block_height t \<in> height ` set (tbl_blocks db)" by (metis imageI)
      with hs show ?thesis by simp
    next
      case 2
      with assms(2) have "block_height t = height b" by (simp add: list_all_iff)
      with hs show ?thesis by simp
    qed
    then show ?thesis by auto
  qed
  then show ?thesis
    unfolding store_effect by (auto simp: parents_present_def list_all_iff list_ex_iff)
qed

subsection \<open>Two runs on the small node\<close>

lemma demo_store:
  "storeBlock demo_node no_faults demo_block empty_client =
     (Inr (),
      \<lparr>visible =
         \<lparr>tbl_blocks = [\<lparr>height = 7, hash = ''h7'', timestamp = 1000, bitcoin_block_height = 3\<rparr>],
          tbl_transactions =
            [\<lparr>txid = ''t1'', block_height = 7, data = ''{a}'', status = 0, bitcoin_txids = []\<rparr>,
             \<lparr>txid = ''t2'', block_height = 7, data = ''{b}'', status = 1, bitcoin_txids = [''btc'']\<rparr>]\<rparr>,
       open_txn = None,
       issued = [BEGIN,
                 InsertBlock \<lparr>height = 7, hash = ''h7'', timestamp = 1000, bitcoin_block_height = 3\<rparr>,
                 InsertTx \<lparr>txid = ''t1'', block_height = 7, data = ''{a}'', status = 0, bitcoin_txids = []\<rparr>,
                 InsertTx \<lparr>txid = ''t2'', block_height = 7, data = ''{b}'', status = 1, bitcoin_txids = [''btc'']\<rparr>,
                 COMMIT]\<rparr>)"
  by (simp add: storeBlock_def storeBlock_try_def client_query_def exec_stmt_def Let_def
      storeTransactions.simps storeBatch_def apply_insert_def upsert_block_def upsert_tx_def
      demo_node_def demo_block_def no_faults_def empty_client_def insertBlock_row_def
      insertTx_row_def status_code_def)

lemma flaky_store:
  "storeBlock flaky_node no_faults demo_block empty_client =
     (Inl (RpcError ''timeout''),
      \<lparr>visible = \<lparr>tbl_blocks = [], tbl_transactions = []\<rparr>,
       open_txn = None,
       issued = [BEGIN,
                 InsertBlock \<lparr>height = 7, hash = ''h7'', timestamp = 1000, bitcoin_block_height = 3\<rparr>,
                 ROLLBACK]\<rparr>)"
  by (simp add: storeBlock_def storeBlock_try_def client_query_def exec_stmt_def Let_def
      storeTransactions.simps storeBatch_def apply_insert_def upsert_block_def upsert_tx_def
      flaky_node_def demo_node_def demo_block_def no_faults_def empty_client_def insertBlock_row_def
      insertTx_row_def status_code_def)

subsection \<open>Keys are kept\<close>

lemma storeBlock_keys:
  assumes "open_txn c = None" "primary_keys (visible c)" "storeBlock nd f blk c = (r, c')"
  shows "primary_keys (visible c')"
proof (cases "r = Inr ()")
  case True
  with storeBlock_result [OF assms(1,3)] store_effect_keys [OF assms(2)] show ?thesis by simp
next
  case False
  with storeBlock_result [OF assms(1,3)] assms(2) show ?thesis by simp
qed

subsection \<open>The outcome does not depend on the connection\<close>

lemma client_query_outcome:
  "fst (client_query f q c) = (if stmt_fails f q then Inl (QueryError q) else Inr ())"
  by (simp add: client_query_def Let_def)

lemma run_queries_outcome:
  "fst (run_queries f qs c) = fst (run_queries f qs d)"
proof (induction qs arbitrary: c d)
  case Nil
  show ?case by simp
next
  case (Cons q qs)
  obtain r1 c1 where c1: "client_query f q c = (r1, c1)" by (cases "client_query f q c")
  obtain r2 d1 where d1: "client_query f q d = (r2, d1)" by (cases "client_query f q d")
  from c1 d1 client_query_outcome [of f q c] client_query_outcome [of f q d] have "r2 = r1" by simp
  with c1 d1 Cons.IH [of c1 d1] show ?case by (cases r1) auto
qed

lemma storeBatch_outcome:
  "fst (storeBatch nd f h batch c) = fst (storeBatch nd f h batch d)"
  using run_queries_outcome [of f _ c d]
  by (auto simp: storeBatch_def split: sum.splits prod.splits)

lemma storeTransactions_outcome:
  "fst (storeTransactions nd f h txs i c) = fst (storeTransactions nd f h txs i d)"
proof (induction nd f h txs i c arbitrary: d rule: storeTransactions.induct)
  case (1 nd f h txs i c)
  show ?case
  proof (cases "i < length txs")
    case False
    then show ?thesis
      by (simp add: storeTransactions.simps [of nd f h txs i c] storeTransactions.simps [of nd f h txs i d])
  next
    case True
    let ?batch = "take 50 (drop i txs)"
    obtain r1 c1 where c1: "storeBatch nd f h ?batch c = (r1, c1)" by (cases "storeBatch nd f h ?batch c")
    obtain r2 d1 where d1: "storeBatch nd f h ?batch d = (r2, d1)" by (cases "storeBatch nd f h ?batch d")
    from c1 d1 storeBatch_outcome [of nd f h ?batch c d] have eq: "r2 = r1" by simp
    show ?thesis
    proof (cases r1)
      case (Inl e)
      with eq c1 d1 True show ?thesis
        by (simp add: storeTransactions.simps [of nd f h txs i c] storeTransactions.simps [of nd f h txs i d])
    next
      case (Inr u)
      from "1.IH" [OF True c1 [symmetric] Inr, of d1] eq c1 d1 True Inr show ?thesis
        by (simp add: storeTransactions.simps [of nd f h txs i c] storeTransactions.simps [of nd f h txs i d])
    qed
  qed
qed

lemma storeBlock_try_outcome:
  "fst (storeBlock_try nd f blk c) = fst (storeBlock_try nd f blk d)"
proof -
  have q: "fst (client_query f s x) = fst (client_query f s y)" for s x y
    by (simp add: client_query_outcome)
  obtain r1 c1 where c1: "client_query f BEGIN c = (r1, c1)" by (cases "client_query f BEGIN c")
  obtain r1' d1 where d1: "client_query f BEGIN d = (r1', d1)" by (cases "client_query f BEGIN d")
  from q [of BEGIN c d] c1 d1 have e1: "r1' = r1" by simp
  let ?ib = "InsertBlock (insertBlock_row blk)"
  obtain r2 c2 where c2: "client_query f ?ib c1 = (r2, c2)" by (cases "client_query f ?ib c1")
  obtain r2' d2 where d2: "client_query f ?ib d1 = (r2', d2)" by (cases "client_query f ?ib d1")
  from q [of ?ib c1 d1] c2 d2 have e2: "r2' = r2" by simp
  let ?st = "storeTransactions nd f (height blk) (transactions blk) 0"
  obtain r3 c3 where c3: "?st c2 = (r3, c3)" by (cases "?st c2")
  obtain r3' d3 where d3: "?st d2 = (r3', d3)" by (cases "?st d2")
  from storeTransactions_outcome [of nd f "height blk" "transactions blk" 0 c2 d2] c3 d3
  have e3: "r3' = r3" by simp
  show ?thesis
    by (cases r1; cases r2; cases r3)
      (simp_all add: storeBlock_try_def c1 d1 e1 c2 d2 e2 c3 d3 e3 q [of COMMIT c3 d3])
qed

lemma storeBlock_outcome:
  "fst (storeBlock nd f blk c) = fst (storeBlock nd f blk d)"
proof -
  obtain r1 c1 where c1: "storeBlock_try nd f blk c = (r1, c1)" by (cases "storeBlock_try nd f blk c")
  obtain r1' d1 where d1: "storeBlock_try nd f blk d = (r1', d1)" by (cases "storeBlock_try nd f blk d")
  from storeBlock_try_outcome [of nd f blk c d] c1 d1 have e: "r1' = r1" by simp
  have q: "fst (client_query f ROLLBACK c1) = fst (client_query f ROLLBACK d1)"
    by (simp add: client_query_outcome)
  obtain r2 c2 where c2: "client_query f ROLLBACK c1 = (r2, c2)" by (cases "client_query f ROLLBACK c1")
  obtain r2' d2 where d2: "client_query f ROLLBACK d1 = (r2', d2)" by (cases "client_query f ROLLBACK d1")
  from q c2 d2 have e2: "r2' = r2" by simp
  show ?thesis
    by (cases r1; cases r2) (simp_all add: storeBlock_def c1 d1 e c2 d2 e2)
qed

subsection \<open>Statements of two connections, interleaved\<close>

lemma sent_on_snoc:
  "sent_on x (sched @ [(y, q)]) = (if x = y then sent_on x sched @ [q] else sent_on x sched)"
  by (simp add: sent_on_def)

lemma run_schedule_snoc: "run_schedule (sched @ [p]) s = server_exec p (run_schedule sched s)"
  by (simp add: run_schedule_def)

lemma commit_order_snoc:
  "commit_order (sched @ [(x, q)]) = (if q = COMMIT then commit_order sched @ [x] else commit_order sched)"
  by (simp add: commit_order_def)

lemma txn_prefix_cases:
  assumes "BEGIN # ins @ [COMMIT] = pre @ q # rest" "list_all is_insert ins"
  obtains "pre = []" "q = BEGIN"
  | k where "pre = BEGIN # k" "is_insert q" "rest \<noteq> []"
  | "pre = BEGIN # ins" "q = COMMIT" "rest = []"
proof (cases pre)
  case Nil
  with assms(1) that(1) show ?thesis by simp
next
  case (Cons p k)
  with assms(1) have p: "p = BEGIN" and e: "ins @ [COMMIT] = k @ q # rest" by simp_all
  show ?thesis
  proof (cases "rest = []")
    case True
    with e have "k = ins" "q = COMMIT" by simp_all
    with Cons p True that(3) show ?thesis by simp
  next
    case False
    then obtain r' l where r: "rest = r' @ [l]" by (metis rev_exhaust)
    with e have "ins @ [COMMIT] = (k @ q # r') @ [l]" by simp
    then have "ins = k @ q # r'" by (simp only: append1_eq_conv)
    with assms(2) have "is_insert q" by simp
    with Cons p False that(2) show ?thesis by simp
  qed
qed

lemma server_exec_fields:
  "committed (server_exec (x, q) s)
     = visible (exec_stmt q \<lparr>visible = committed s, open_txn = txn s x, issued = []\<rparr>) \<and>
   txn (server_exec (x, q) s) x
     = open_txn (exec_stmt q \<lparr>visible = committed s, open_txn = txn s x, issued = []\<rparr>) \<and>
   (y \<noteq> x \<longrightarrow> txn (server_exec (x, q) s) y = txn s y)"
  by (simp add: server_exec_def Let_def)

lemma exec_stmt_BEGIN:
  "open_txn c = None \<Longrightarrow> visible (exec_stmt BEGIN c) = visible c \<and> open_txn (exec_stmt BEGIN c) = Some []"
  by (simp add: exec_stmt_def)

lemma exec_stmt_insert:
  "is_insert q \<Longrightarrow> open_txn c = Some k \<Longrightarrow>
     visible (exec_stmt q c) = visible c \<and> open_txn (exec_stmt q c) = Some (k @ [q])"
  by (cases q) (simp_all add: exec_stmt_def is_insert_def)

lemma exec_stmt_COMMIT:
  "open_txn c = Some k \<Longrightarrow>
     visible (exec_stmt COMMIT c) = fold apply_insert k (visible c) \<and> open_txn (exec_stmt COMMIT c) = None"
  by (simp add: exec_stmt_def)

text \<open>Serialisation: the committed tables are the write sets applied in commit order.\<close>

lemma schedule_serialised:
  assumes ins: "\<And>x. list_all is_insert (ins x)"
    and pre: "\<And>x. \<exists>rest. BEGIN # ins x @ [COMMIT] = sent_on x sched @ rest"
  shows "committed (run_schedule sched (idle_server db))
           = fold (\<lambda>x. fold apply_insert (ins x)) (commit_order sched) db \<and>
         (\<forall>x. txn (run_schedule sched (idle_server db)) x
                = (if sent_on x sched = [] \<or> sent_on x sched = BEGIN # ins x @ [COMMIT] then None
                   else Some (tl (sent_on x sched))))"
  using pre
proof (induction sched rule: rev_induct)
  case Nil
  show ?case by (simp add: run_schedule_def idle_server_def commit_order_def sent_on_def)
next
  case (snoc p sched)
  obtain x q where p: "p = (x, q)" by (cases p)
  let ?s = "run_schedule sched (idle_server db)"
  let ?full = "\<lambda>y. BEGIN # ins y @ [COMMIT]"
  have pre': "\<exists>rest. ?full y = sent_on y sched @ rest" for y
    using snoc.prems [of y] by (auto simp: p sent_on_snoc split: if_splits)
  note ih = snoc.IH [OF pre']
  from ih have ihc: "committed ?s = fold (\<lambda>x. fold apply_insert (ins x)) (commit_order sched) db"
    and iht: "\<And>y. txn ?s y = (if sent_on y sched = [] \<or> sent_on y sched = ?full y then None
                   else Some (tl (sent_on y sched)))"
    by simp_all
  from snoc.prems [of x] obtain rest where full: "?full x = sent_on x sched @ q # rest"
    by (auto simp: p sent_on_snoc)
  have other: "txn (server_exec (x, q) ?s) y = txn ?s y" "sent_on y (sched @ [p]) = sent_on y sched"
    if "y \<noteq> x" for y
    using that server_exec_fields [of x q ?s y] by (simp_all add: p sent_on_snoc)
  let ?c = "\<lparr>visible = committed ?s, open_txn = txn ?s x, issued = []\<rparr>"
  from full ins [of x] have main:
    "committed (server_exec (x, q) ?s)
       = fold (\<lambda>x. fold apply_insert (ins x)) (commit_order (sched @ [p])) db \<and>
     txn (server_exec (x, q) ?s) x
       = (if sent_on x (sched @ [p]) = [] \<or> sent_on x (sched @ [p]) = ?full x then None
          else Some (tl (sent_on x (sched @ [p]))))"
  proof (cases rule: txn_prefix_cases)
    case 1
    then have "open_txn ?c = None" using iht [of x] by simp
    from exec_stmt_BEGIN [OF this] server_exec_fields [of x q ?s x] 1 ihc
    show ?thesis by (simp add: p sent_on_snoc commit_order_snoc)
  next
    case (2 k)
    from 2(1,3) full have ne: "sent_on x sched \<noteq> ?full x" by auto
    with 2(1) have o: "open_txn ?c = Some k" using iht [of x] by simp
    from 2(2) have nc: "q \<noteq> COMMIT" by (auto simp: is_insert_def)
    from full 2(3) have ne': "sent_on x sched @ [q] \<noteq> ?full x" by auto
    from exec_stmt_insert [OF 2(2) o] server_exec_fields [of x q ?s x] ihc nc ne' 2(1)
    show ?thesis by (simp add: p sent_on_snoc commit_order_snoc)
  next
    case 3
    from 3(1) have ne: "sent_on x sched \<noteq> ?full x" by simp
    with 3(1) have o: "open_txn ?c = Some (ins x)" using iht [of x] by simp
    from exec_stmt_COMMIT [OF o] server_exec_fields [of x q ?s x] ihc 3
    show ?thesis by (simp add: p sent_on_snoc commit_order_snoc)
  qed
  have "txn (server_exec (x, q) ?s) y
          = (if sent_on y (sched @ [p]) = [] \<or> sent_on y (sched @ [p]) = ?full y then None
             else Some (tl (sent_on y (sched @ [p]))))" for y
  proof (cases "y = x")
    case True
    with main show ?thesis by simp
  next
    case False
    from other [OF False] iht [of y] show ?thesis by simp
  qed
  with main show ?case by (simp add: run_schedule_snoc p)
qed


lemma store_statements_shape:
  "store_statements nd blk = BEGIN # store_inserts nd blk @ [COMMIT] \<and>
   list_all is_insert (store_inserts nd blk) \<and>
   fold apply_insert (store_inserts nd blk) db = store_effect_of nd blk db"
  by (simp add: store_statements_def store_inserts_def store_effect_of_def is_insert_def list_all_iff)

lemma store_effect_of_keys: "primary_keys db \<Longrightarrow> primary_keys (store_effect_of nd blk db)"
  unfolding store_effect_of_def store_inserts_def by (rule store_effect_keys)

lemma store_effect_of_twice:
  assumes "primary_keys db" "all_resolved nd1 (transactions blk)" "all_resolved nd2 (transactions blk)"
  shows "store_effect_of nd2 blk (store_effect_of nd1 blk db) = store_effect_of nd2 blk db"
  unfolding store_effect_of_def store_inserts_def
  by (rule store_effect_twice [OF assms(1) refl]) (simp add: stored_rows_txids assms)

lemma effects_in_commit_order:
  assumes "primary_keys db" "\<And>x. all_resolved (nd x) (transactions blk)" "order \<noteq> []"
  shows "fold (\<lambda>x. store_effect_of (nd x) blk) order db = store_effect_of (nd (last order)) blk db"
  using assms(3)
proof (induction order rule: rev_induct)
  case Nil
  then show ?case by simp
next
  case (snoc x order)
  show ?case
  proof (cases "order = []")
    case True
    then show ?thesis by simp
  next
    case False
    from snoc.IH [OF False]
      store_effect_of_twice [OF assms(1) assms(2) [of "last order"] assms(2) [of x]]
    show ?thesis by simp
  qed
qed

lemma commit_order_sent:
  "COMMIT \<in> set (sent_on x sched) \<longleftrightarrow> x \<in> set (commit_order sched)"
  by (induction sched) (auto simp: sent_on_def commit_order_def)

text \<open>Two overlapping successful calls for the same block.\<close>

lemma overlapping_stores:
  assumes keys: "primary_keys db"
    and res: "all_resolved nd1 (transactions blk)" "all_resolved nd2 (transactions blk)"
    and a: "sent_on Conn_A sched = store_statements nd1 blk"
    and b: "sent_on Conn_B sched = store_statements nd2 blk"
  shows "committed (run_schedule sched (idle_server db))
           = store_effect_of (case last (commit_order sched) of Conn_A \<Rightarrow> nd1 | Conn_B \<Rightarrow> nd2) blk db \<and>
         (\<forall>x. txn (run_schedule sched (idle_server db)) x = None)"
proof -
  let ?nd = "\<lambda>x. case x of Conn_A \<Rightarrow> nd1 | Conn_B \<Rightarrow> nd2"
  let ?ins = "\<lambda>x. store_inserts (?nd x) blk"
  have sent: "sent_on x sched = BEGIN # ?ins x @ [COMMIT]" for x
    using a b store_statements_shape [of nd1 blk] store_statements_shape [of nd2 blk]
    by (cases x) simp_all
  have ins: "list_all is_insert (?ins x)" for x
    using store_statements_shape [of "?nd x" blk] by simp
  have pre: "\<exists>rest. BEGIN # ?ins x @ [COMMIT] = sent_on x sched @ rest" for x
    using sent [of x] by simp
  note ser = schedule_serialised [of ?ins sched db, OF ins pre]
  have eff: "(\<lambda>x. fold apply_insert (?ins x)) = (\<lambda>x. store_effect_of (?nd x) blk)"
    using store_statements_shape by (intro ext) simp
  have "Conn_A \<in> set (commit_order sched)"
    using commit_order_sent [of Conn_A sched] sent [of Conn_A] by simp
  then have ne: "commit_order sched \<noteq> []" by auto
  have r: "all_resolved (?nd x) (transactions blk)" for x using res by (cases x) simp_all
  from effects_in_commit_order [of db ?nd blk, OF keys r ne] ser sent
  show ?thesis by (simp add: eff)
qed

text \<open>A single call: before its COMMIT has arrived, the committed tables are the old ones.\<close>

lemma store_prefix_invisible:
  assumes "store_statements nd blk = p @ rest" "rest \<noteq> []"
  shows "committed (run_schedule (map (Pair Conn_A) p) (idle_server db)) = db"
proof -
  let ?ins = "\<lambda>x. case x of Conn_A \<Rightarrow> store_inserts nd blk | Conn_B \<Rightarrow> []"
  let ?sched = "map (Pair Conn_A) p"
  have sa: "sent_on Conn_A ?sched = p" by (simp add: sent_on_def filter_map comp_def)
  have sb: "sent_on Conn_B ?sched = []" by (simp add: sent_on_def filter_map comp_def)
  have ins: "list_all is_insert (?ins x)" for x
    using store_statements_shape [of nd blk] by (cases x) simp_all
  have pre: "\<exists>r. BEGIN # ?ins x @ [COMMIT] = sent_on x ?sched @ r" for x
    using assms(1) store_statements_shape [of nd blk] sa sb by (cases x) auto
  from assms obtain r' l where rest: "rest = r' @ [l]" by (metis rev_exhaust)
  with assms(1) store_statements_shape [of nd blk]
  have "(BEGIN # store_inserts nd blk) @ [COMMIT] = (p @ r') @ [l]" by simp
  then have "p @ r' = BEGIN # store_inserts nd blk" by (simp only: append1_eq_conv)
  then have "set p \<subseteq> insert BEGIN (set (store_inserts nd blk))"
    by (metis Un_upper1 set_append list.simps(15))
  moreover have "\<not> is_insert COMMIT" by (simp add: is_insert_def)
  ultimately have "COMMIT \<notin> set p"
    using ins [of Conn_A] unfolding list_all_iff by auto
  then have "commit_order ?sched = []"
    by (auto simp: commit_order_def filter_empty_conv)
  with schedule_serialised [of ?ins ?sched db, OF ins pre] show ?thesis by simp
qed

text \<open>A single call, whole: its COMMIT publishes the effect of the call.\<close>

lemma store_whole_visible:
  "committed (run_schedule (map (Pair Conn_A) (store_statements nd blk)) (idle_server db))
     = store_effect_of nd blk db"
proof -
  let ?ins = "\<lambda>x. case x of Conn_A \<Rightarrow> store_inserts nd blk | Conn_B \<Rightarrow> []"
  let ?sched = "map (Pair Conn_A) (store_statements nd blk)"
  note shape = store_statements_shape [of nd blk]
  have sa: "sent_on Conn_A ?sched = store_statements nd blk"
    by (simp add: sent_on_def filter_map comp_def)
  have sb: "sent_on Conn_B ?sched = []" by (simp add: sent_on_def filter_map comp_def)
  have ins: "list_all is_insert (?ins x)" for x using shape by (cases x) simp_all
  have pre: "\<exists>r. BEGIN # ?ins x @ [COMMIT] = sent_on x ?sched @ r" for x
    using shape sa sb by (cases x) auto
  have "\<not> is_insert COMMIT" by (simp add: is_insert_def)
  with ins [of Conn_A] have "COMMIT \<notin> set (store_inserts nd blk)"
    unfolding list_all_iff by auto
  then have "filter (\<lambda>q. q = COMMIT) (store_inserts nd blk) = []"
    by (auto simp: filter_empty_conv)
  then have "commit_order ?sched = [Conn_A]"
    using shape by (simp add: commit_order_def filter_map comp_def)
  with schedule_serialised [of ?ins ?sched db, OF ins pre] shape show ?thesis by simp
qed

subsection \<open>Atomicity\<close>

text \<open>
  Claim C2. \<open>storeBlock\<close>, called on a connection with no transaction open, returns the
  connection with no transaction open. It succeeds exactly when nothing fails; in particular
  it fails when some transaction of the block does not resolve. Whenever it fails it throws
  an error and the committed database is what it was before the call, so no row of the
  block has become visible; the error caught from the \<open>try\<close> body is the one thrown again
  (when \<open>ROLLBACK\<close> goes through). When it succeeds, the statements it has sent are
  \<open>BEGIN\<close>, the block insert, the transaction inserts in list order, \<open>COMMIT\<close>; the
  committed database is the old one with exactly these inserts applied, it holds a block row
  of the block's height, and every transaction row written carries that height. In either
  case, if every committed transaction row had its parent block row before the call, the
  same is true after it. And while the statements of a successful call arrive at the
  database, another connection reads the old committed tables after every statement but the
  last, the \<open>COMMIT\<close>, and the new ones after that.
\<close>

theorem storeBlock_atomic:
  assumes "open_txn c = None" and "storeBlock nd f blk c = (r, c')"
  shows "open_txn c' = None \<and>
         (r = Inr () \<longleftrightarrow> store_succeeds nd f blk) \<and>
         (\<not> all_resolved nd (transactions blk) \<longrightarrow> r \<noteq> Inr ()) \<and>
         (r \<noteq> Inr () \<longrightarrow> (\<exists>e. r = Inl e) \<and> visible c' = visible c) \<and>
         (\<forall>e c1. \<not> connect_fails f \<and> \<not> stmt_fails f ROLLBACK \<and>
                  storeBlock_try nd f blk c = (Inl e, c1) \<longrightarrow> r = Inl e) \<and>
         (r = Inr () \<longrightarrow>
            issued c' = issued c @ BEGIN # InsertBlock (insertBlock_row blk)
                          # map InsertTx (stored_rows nd (height blk) (transactions blk)) @ [COMMIT] \<and>
            visible c' = fold apply_insert
                           (InsertBlock (insertBlock_row blk)
                              # map InsertTx (stored_rows nd (height blk) (transactions blk)))
                           (visible c) \<and>
            list_ex (\<lambda>b. height b = height blk) (tbl_blocks (visible c')) \<and>
            list_all (\<lambda>t. block_height t = height blk)
              (stored_rows nd (height blk) (transactions blk))) \<and>
         (parents_present (visible c) \<longrightarrow> parents_present (visible c')) \<and>
         (r = Inr () \<longrightarrow>
            (\<forall>p rest. store_statements nd blk = p @ rest \<and> rest \<noteq> [] \<longrightarrow>
               committed (run_schedule (map (Pair Conn_A) p) (idle_server (visible c))) = visible c) \<and>
            committed (run_schedule (map (Pair Conn_A) (store_statements nd blk))
                         (idle_server (visible c))) = visible c')"
proof -
  note res = storeBlock_result [OF assms]
  let ?rows = "stored_rows nd (height blk) (transactions blk)"
  let ?new = "fold apply_insert (InsertBlock (insertBlock_row blk) # map InsertTx ?rows) (visible c)"
  have rows: "list_all (\<lambda>t. block_height t = height blk) ?rows"
    by (simp add: list_all_iff stored_rows_block_height)
  have hb: "height (insertBlock_row blk) = height blk" by (simp add: insertBlock_row_def)
  have a: "open_txn c' = None" and b: "r = Inr () \<longleftrightarrow> store_succeeds nd f blk"
    using res by simp_all
  have c: "\<not> all_resolved nd (transactions blk) \<longrightarrow> r \<noteq> Inr ()"
    using b by (auto simp: store_succeeds_def)
  have d: "r \<noteq> Inr () \<longrightarrow> (\<exists>e. r = Inl e) \<and> visible c' = visible c"
    using res by (cases r) auto
  have e: "\<forall>e c1. \<not> connect_fails f \<and> \<not> stmt_fails f ROLLBACK \<and>
                  storeBlock_try nd f blk c = (Inl e, c1) \<longrightarrow> r = Inl e"
    using storeBlock_rethrows [of f nd blk c] assms(2) by auto
  have g: "r = Inr () \<longrightarrow>
            issued c' = issued c @ BEGIN # InsertBlock (insertBlock_row blk) # map InsertTx ?rows @ [COMMIT] \<and>
            visible c' = ?new \<and>
            list_ex (\<lambda>b. height b = height blk) (tbl_blocks (visible c')) \<and>
            list_all (\<lambda>t. block_height t = height blk) ?rows"
  proof
    assume ok: "r = Inr ()"
    with res have v: "visible c' = ?new" and i: "issued c' = issued c @ store_statements nd blk" by simp_all
    have "height blk \<in> height ` set (tbl_blocks ?new)"
      unfolding store_effect using key_set_upsert [of height "insertBlock_row blk" "tbl_blocks (visible c)"] hb
      by simp
    then have "list_ex (\<lambda>b. height b = height blk) (tbl_blocks (visible c'))"
      unfolding v list_ex_iff by auto
    with v i rows show "issued c' = issued c @ BEGIN # InsertBlock (insertBlock_row blk) # map InsertTx ?rows @ [COMMIT] \<and>
            visible c' = ?new \<and>
            list_ex (\<lambda>b. height b = height blk) (tbl_blocks (visible c')) \<and>
            list_all (\<lambda>t. block_height t = height blk) ?rows"
      by (simp add: store_statements_def)
  qed
  have h: "parents_present (visible c) \<longrightarrow> parents_present (visible c')"
  proof
    assume pp: "parents_present (visible c)"
    show "parents_present (visible c')"
    proof (cases "r = Inr ()")
      case True
      with res have "visible c' = ?new" by simp
      moreover have "parents_present ?new"
        by (rule store_effect_parents [OF pp]) (use rows hb in simp)
      ultimately show ?thesis by simp
    next
      case False
      with res pp show ?thesis by simp
    qed
  qed
  have k: "r = Inr () \<longrightarrow>
            (\<forall>p rest. store_statements nd blk = p @ rest \<and> rest \<noteq> [] \<longrightarrow>
               committed (run_schedule (map (Pair Conn_A) p) (idle_server (visible c))) = visible c) \<and>
            committed (run_schedule (map (Pair Conn_A) (store_statements nd blk))
                         (idle_server (visible c))) = visible c'"
    using res store_prefix_invisible [of nd blk _ _ "visible c"] store_whole_visible [of nd blk "visible c"]
    by (auto simp: store_effect_of_def store_inserts_def)
  from a b c d e g h k show ?thesis by blast
qed

theorem storeBlock_atomic_witness:
  "open_txn empty_client = None \<and>
   \<not> all_resolved flaky_node (transactions demo_block) \<and>
   fst (storeBlock flaky_node no_faults demo_block empty_client) = Inl (RpcError ''timeout'') \<and>
   visible (snd (storeBlock flaky_node no_faults demo_block empty_client)) = visible empty_client \<and>
   fst (storeBlock demo_node no_faults demo_block empty_client) = Inr () \<and>
   issued (snd (storeBlock demo_node no_faults demo_block empty_client)) =
     [BEGIN,
      InsertBlock \<lparr>height = 7, hash = ''h7'', timestamp = 1000, bitcoin_block_height = 3\<rparr>,
      InsertTx \<lparr>txid = ''t1'', block_height = 7, data = ''{a}'', status = 0, bitcoin_txids = []\<rparr>,
      InsertTx \<lparr>txid = ''t2'', block_height = 7, data = ''{b}'', status = 1, bitcoin_txids = [''btc'']\<rparr>,
      COMMIT] \<and>
   parents_present (visible empty_client) \<and>
   parents_present (visible (snd (storeBlock demo_node no_faults demo_block empty_client))) \<and>
   store_statements demo_node demo_block =
     [BEGIN,
      InsertBlock \<lparr>height = 7, hash = ''h7'', timestamp = 1000, bitcoin_block_height = 3\<rparr>,
      InsertTx \<lparr>txid = ''t1'', block_height = 7, data = ''{a}'', status = 0, bitcoin_txids = []\<rparr>]
     @ [InsertTx \<lparr>txid = ''t2'', block_height = 7, data = ''{b}'', status = 1, bitcoin_txids = [''btc'']\<rparr>,
        COMMIT] \<and>
   committed
     (run_schedule
        [(Conn_A, BEGIN),
         (Conn_A, InsertBlock \<lparr>height = 7, hash = ''h7'', timestamp = 1000, bitcoin_block_height = 3\<rparr>),
         (Conn_A, InsertTx \<lparr>txid = ''t1'', block_height = 7, data = ''{a}'', status = 0, bitcoin_txids = []\<rparr>)]
        (idle_server (visible empty_client))) = visible empty_client"
proof -
  have clean: "open_txn empty_client = None" by (simp add: empty_client_def)
  have pp: "parents_present (visible empty_client)" by (simp add: empty_client_def parents_present_def)
  have nr: "\<not> all_resolved flaky_node (transactions demo_block)"
    by (simp add: all_resolved_def flaky_node_def demo_node_def demo_block_def)
  have rows: "stored_rows demo_node (height demo_block) (transactions demo_block) =
      [\<lparr>txid = ''t1'', block_height = 7, data = ''{a}'', status = 0, bitcoin_txids = []\<rparr>,
       \<lparr>txid = ''t2'', block_height = 7, data = ''{b}'', status = 1, bitcoin_txids = [''btc'']\<rparr>]"
    by (simp add: stored_rows_def demo_node_def demo_block_def insertTx_row_def status_code_def)
  have brow: "insertBlock_row demo_block =
      \<lparr>height = 7, hash = ''h7'', timestamp = 1000, bitcoin_block_height = 3\<rparr>"
    by (simp add: insertBlock_row_def demo_block_def)
  have ok: "store_succeeds demo_node no_faults demo_block"
    by (simp add: store_succeeds_def no_faults_def all_resolved_def demo_node_def demo_block_def list_all_iff)
  obtain r c' where bad: "storeBlock flaky_node no_faults demo_block empty_client = (r, c')"
    by (cases "storeBlock flaky_node no_faults demo_block empty_client")
  obtain r2 c2 where good: "storeBlock demo_node no_faults demo_block empty_client = (r2, c2)"
    by (cases "storeBlock demo_node no_faults demo_block empty_client")
  have tryf: "storeBlock_try flaky_node no_faults demo_block empty_client =
     (Inl (RpcError ''timeout''),
      \<lparr>visible = \<lparr>tbl_blocks = [], tbl_transactions = []\<rparr>,
       open_txn = Some [InsertBlock \<lparr>height = 7, hash = ''h7'', timestamp = 1000, bitcoin_block_height = 3\<rparr>],
       issued = [BEGIN,
                 InsertBlock \<lparr>height = 7, hash = ''h7'', timestamp = 1000, bitcoin_block_height = 3\<rparr>]\<rparr>)"
    by (simp add: storeBlock_try_def client_query_def exec_stmt_def Let_def
      storeTransactions.simps storeBatch_def apply_insert_def upsert_block_def upsert_tx_def
      flaky_node_def demo_node_def demo_block_def no_faults_def empty_client_def insertBlock_row_def)
  note fail = storeBlock_atomic [OF clean bad]
  note succ = storeBlock_atomic [OF clean good]
  from fail nr have "r \<noteq> Inr ()" by blast
  with fail have v: "visible c' = visible empty_client" by blast
  from fail tryf have e: "r = Inl (RpcError ''timeout'')" by (simp add: no_faults_def)
  from succ ok have r2: "r2 = Inr ()" by blast
  with succ have i: "issued c2 = issued empty_client @ BEGIN # InsertBlock (insertBlock_row demo_block)
        # map InsertTx (stored_rows demo_node (height demo_block) (transactions demo_block)) @ [COMMIT]"
    by blast
  from succ pp have p2: "parents_present (visible c2)" by blast
  let ?p = "[BEGIN,
      InsertBlock \<lparr>height = 7, hash = ''h7'', timestamp = 1000, bitcoin_block_height = 3\<rparr>,
      InsertTx \<lparr>txid = ''t1'', block_height = 7, data = ''{a}'', status = 0, bitcoin_txids = []\<rparr>]"
  let ?rest = "[InsertTx \<lparr>txid = ''t2'', block_height = 7, data = ''{b}'', status = 1, bitcoin_txids = [''btc'']\<rparr>,
        COMMIT]"
  have st: "store_statements demo_node demo_block = ?p @ ?rest"
    by (simp add: store_statements_def rows brow)
  from succ r2 have "\<forall>p rest. store_statements demo_node demo_block = p @ rest \<and> rest \<noteq> [] \<longrightarrow>
               committed (run_schedule (map (Pair Conn_A) p) (idle_server (visible empty_client)))
                 = visible empty_client"
    by blast
  with st have "committed (run_schedule (map (Pair Conn_A) ?p) (idle_server (visible empty_client)))
                 = visible empty_client"
    by blast
  then have pv: "committed
     (run_schedule
        [(Conn_A, BEGIN),
         (Conn_A, InsertBlock \<lparr>height = 7, hash = ''h7'', timestamp = 1000, bitcoin_block_height = 3\<rparr>),
         (Conn_A, InsertTx \<lparr>txid = ''t1'', block_height = 7, data = ''{a}'', status = 0, bitcoin_txids = []\<rparr>)]
        (idle_server (visible empty_client))) = visible empty_client"
    by simp
  from clean nr v e r2 i p2 pp have main: "open_txn empty_client = None \<and>
   \<not> all_resolved flaky_node (transactions demo_block) \<and>
   fst (storeBlock flaky_node no_faults demo_block empty_client) = Inl (RpcError ''timeout'') \<and>
   visible (snd (storeBlock flaky_node no_faults demo_block empty_client)) = visible empty_client \<and>
   fst (storeBlock demo_node no_faults demo_block empty_client) = Inr () \<and>
   issued (snd (storeBlock demo_node no_faults demo_block empty_client)) =
     [BEGIN,
      InsertBlock \<lparr>height = 7, hash = ''h7'', timestamp = 1000, bitcoin_block_height = 3\<rparr>,
      InsertTx \<lparr>txid = ''t1'', block_height = 7, data = ''{a}'', status = 0, bitcoin_txids = []\<rparr>,
      InsertTx \<lparr>txid = ''t2'', block_height = 7, data = ''{b}'', status = 1, bitcoin_txids = [''btc'']\<rparr>,
      COMMIT] \<and>
   parents_present (visible empty_client) \<and>
   parents_present (visible (snd (storeBlock demo_node no_faults demo_block empty_client)))"
    by (simp add: bad good rows brow) (simp add: empty_client_def)
  from main st pv show ?thesis by blast
qed

subsection \<open>Idempotence\<close>

text \<open>
  Claim C1. Let a block be stored twice in a row, on a connection with no transaction open
  and tables that respect their primary keys; the two calls may see different answers of
  the node and different faults. When both calls face the same node and faults, the second
  call has the outcome of the first and leaves the committed database as the first left it.
  The primary keys still hold afterwards. And when the second call succeeds, the committed
  database is the one a single call with the latest answers would have produced from the
  start; it holds exactly one block row of the block's height, equal to the block's values,
  and for every transaction id of the block exactly one transaction row, equal to the values
  the latest call resolved. When the two calls, both successful, overlap in time instead,
  in whatever order their statements reach the database on two connections, the committed
  database at the end is what the two calls in a row leave when the second of them is the
  call whose \<open>COMMIT\<close> arrives last, and no transaction is left open.
\<close>

theorem storeBlock_idempotent:
  assumes "open_txn c = None" and "primary_keys (visible c)"
    and "storeBlock nd1 f1 blk c = (r1, c1)"
    and "storeBlock nd f blk c1 = (r2, c2)"
  shows "(nd1 = nd \<and> f1 = f \<longrightarrow> r2 = r1 \<and> visible c2 = visible c1) \<and>
         primary_keys (visible c2) \<and>
         (r2 = Inr () \<longrightarrow>
            visible c2 = visible (snd (storeBlock nd f blk c)) \<and>
            filter (\<lambda>b. height b = height blk) (tbl_blocks (visible c2)) = [insertBlock_row blk] \<and>
            list_all (\<lambda>i. \<exists>tx. getProcessedTransaction nd i = Inr (Some tx) \<and>
                        filter (\<lambda>t. txid t = i) (tbl_transactions (visible c2))
                          = [insertTx_row (height blk) i tx])
              (transactions blk)) \<and>
         (r1 = Inr () \<and> r2 = Inr () \<longrightarrow>
            (\<forall>sched. sent_on Conn_A sched = store_statements nd1 blk \<and>
                     sent_on Conn_B sched = store_statements nd blk \<longrightarrow>
               committed (run_schedule sched (idle_server (visible c)))
                 = (case last (commit_order sched) of
                      Conn_A \<Rightarrow> visible (snd (storeBlock nd1 f1 blk (snd (storeBlock nd f blk c))))
                    | Conn_B \<Rightarrow> visible c2) \<and>
               (\<forall>x. txn (run_schedule sched (idle_server (visible c))) x = None)))"
proof -
  note first = storeBlock_result [OF assms(1,3)]
  from first have clean1: "open_txn c1 = None" by simp
  have keys1: "primary_keys (visible c1)" by (rule storeBlock_keys [OF assms(1,2,3)])
  note second = storeBlock_result [OF clean1 assms(4)]
  have keys2: "primary_keys (visible c2)" by (rule storeBlock_keys [OF clean1 keys1 assms(4)])
  let ?rows = "\<lambda>n. stored_rows n (height blk) (transactions blk)"
  let ?eff = "\<lambda>n. fold apply_insert (InsertBlock (insertBlock_row blk) # map InsertTx (?rows n))"
  have twice: "?eff nd (?eff nd1 (visible c)) = ?eff nd (visible c)"
    if "all_resolved nd1 (transactions blk)" "all_resolved nd (transactions blk)"
    by (rule store_effect_twice [OF assms(2) refl]) (simp add: stored_rows_txids that)
  have latest: "visible c2 = ?eff nd (visible c)" if ok2: "r2 = Inr ()"
  proof (cases "r1 = Inr ()")
    case True
    with first have "visible c1 = ?eff nd1 (visible c)" "all_resolved nd1 (transactions blk)"
      by (simp_all add: store_succeeds_def)
    moreover from second ok2 have "visible c2 = ?eff nd (visible c1)" "all_resolved nd (transactions blk)"
      by (simp_all add: store_succeeds_def)
    ultimately show ?thesis using twice by simp
  next
    case False
    with first have "visible c1 = visible c" by simp
    with second ok2 show ?thesis by simp
  qed
  have same: "r2 = r1 \<and> visible c2 = visible c1" if "nd1 = nd" "f1 = f"
  proof -
    from storeBlock_outcome [of nd f blk c1 c] assms(3,4) that have r: "r2 = r1" by simp
    show ?thesis
    proof (cases "r1 = Inr ()")
      case True
      with r latest first that show ?thesis by simp
    next
      case False
      with r second show ?thesis by simp
    qed
  qed
  have rows: "visible c2 = visible (snd (storeBlock nd f blk c)) \<and>
            filter (\<lambda>b. height b = height blk) (tbl_blocks (visible c2)) = [insertBlock_row blk] \<and>
            list_all (\<lambda>i. \<exists>tx. getProcessedTransaction nd i = Inr (Some tx) \<and>
                        filter (\<lambda>t. txid t = i) (tbl_transactions (visible c2))
                          = [insertTx_row (height blk) i tx])
              (transactions blk)" if ok2: "r2 = Inr ()"
  proof -
    from second ok2 have succ: "store_succeeds nd f blk" by simp
    then have res: "all_resolved nd (transactions blk)" by (simp add: store_succeeds_def)
    obtain r3 c3 where alone: "storeBlock nd f blk c = (r3, c3)" by (cases "storeBlock nd f blk c")
    from storeBlock_result [OF assms(1) alone] succ have "visible c3 = ?eff nd (visible c)" by simp
    with latest [OF ok2] alone have a: "visible c2 = visible (snd (storeBlock nd f blk c))" by simp
    have hb: "height (insertBlock_row blk) = height blk" by (simp add: insertBlock_row_def)
    from store_effect_block_row [OF assms(2), of "insertBlock_row blk" "?rows nd"]
    have b: "filter (\<lambda>b. height b = height blk) (tbl_blocks (visible c2)) = [insertBlock_row blk]"
      unfolding latest [OF ok2] hb .
    have c: "list_all (\<lambda>i. \<exists>tx. getProcessedTransaction nd i = Inr (Some tx) \<and>
                        filter (\<lambda>t. txid t = i) (tbl_transactions (visible c2))
                          = [insertTx_row (height blk) i tx])
              (transactions blk)"
      unfolding list_all_iff latest [OF ok2]
      using store_effect_tx_row [OF assms(2) res] by blast
    from a b c show ?thesis by blast
  qed
  have overlap: "committed (run_schedule sched (idle_server (visible c)))
                 = (case last (commit_order sched) of
                      Conn_A \<Rightarrow> visible (snd (storeBlock nd1 f1 blk (snd (storeBlock nd f blk c))))
                    | Conn_B \<Rightarrow> visible c2) \<and>
               (\<forall>x. txn (run_schedule sched (idle_server (visible c))) x = None)"
    if ok: "r1 = Inr ()" "r2 = Inr ()"
      and a: "sent_on Conn_A sched = store_statements nd1 blk"
      and b: "sent_on Conn_B sched = store_statements nd blk" for sched
  proof -
    from first ok(1) have s1: "store_succeeds nd1 f1 blk" by simp
    from second ok(2) have s2: "store_succeeds nd f blk" by simp
    from s1 s2 have res: "all_resolved nd1 (transactions blk)" "all_resolved nd (transactions blk)"
      by (simp_all add: store_succeeds_def)
    note ov = overlapping_stores [OF assms(2) res a b]
    have v2: "visible c2 = store_effect_of nd blk (visible c)"
      using latest [OF ok(2)] by (simp add: store_effect_of_def store_inserts_def)
    obtain r3 c3 where other: "storeBlock nd f blk c = (r3, c3)" by (cases "storeBlock nd f blk c")
    note o3 = storeBlock_result [OF assms(1) other]
    from o3 s2 have c3: "open_txn c3 = None" "visible c3 = store_effect_of nd blk (visible c)"
      by (simp_all add: store_effect_of_def store_inserts_def)
    obtain r4 c4 where rerun: "storeBlock nd1 f1 blk c3 = (r4, c4)" by (cases "storeBlock nd1 f1 blk c3")
    from storeBlock_result [OF c3(1) rerun] s1
    have "visible c4 = store_effect_of nd1 blk (store_effect_of nd blk (visible c))"
      by (simp add: store_effect_of_def store_inserts_def c3(2))
    with store_effect_of_twice [OF assms(2) res(2) res(1)]
    have v4: "visible c4 = store_effect_of nd1 blk (visible c)" by simp
    from ov v2 v4 show ?thesis
      by (cases "last (commit_order sched)") (simp_all add: other rerun)
  qed
  from same keys2 rows overlap show ?thesis by blast
qed

theorem storeBlock_idempotent_witness:
  "open_txn empty_client = None \<and> primary_keys (visible empty_client) \<and>
   fst (storeBlock demo_node no_faults demo_block empty_client) = Inr () \<and>
   fst (storeBlock demo_node no_faults demo_block
          (snd (storeBlock demo_node no_faults demo_block empty_client))) = Inr () \<and>
   visible (snd (storeBlock demo_node no_faults demo_block
                   (snd (storeBlock demo_node no_faults demo_block empty_client))))
     = visible (snd (storeBlock demo_node no_faults demo_block empty_client)) \<and>
   filter (\<lambda>b. height b = 7)
     (tbl_blocks (visible (snd (storeBlock demo_node no_faults demo_block
                   (snd (storeBlock demo_node no_faults demo_block empty_client))))))
     = [\<lparr>height = 7, hash = ''h7'', timestamp = 1000, bitcoin_block_height = 3\<rparr>] \<and>
   fst (storeBlock flaky_node no_faults demo_block
          (snd (storeBlock flaky_node no_faults demo_block empty_client)))
     = fst (storeBlock flaky_node no_faults demo_block empty_client) \<and>
   sent_on Conn_A demo_schedule = store_statements demo_node demo_block \<and>
   sent_on Conn_B demo_schedule = store_statements demo_node demo_block \<and>
   committed (run_schedule demo_schedule (idle_server (visible empty_client)))
     = visible (snd (storeBlock demo_node no_faults demo_block empty_client)) \<and>
   txn (run_schedule demo_schedule (idle_server (visible empty_client))) Conn_A = None \<and>
   txn (run_schedule demo_schedule (idle_server (visible empty_client))) Conn_B = None"
proof -
  have clean: "open_txn empty_client = None" by (simp add: empty_client_def)
  have keys: "primary_keys (visible empty_client)" by (simp add: empty_client_def primary_keys_def)
  have ok: "store_succeeds demo_node no_faults demo_block"
    by (simp add: store_succeeds_def no_faults_def all_resolved_def demo_node_def demo_block_def list_all_iff)
  obtain r1 c1 where one: "storeBlock demo_node no_faults demo_block empty_client = (r1, c1)"
    by (cases "storeBlock demo_node no_faults demo_block empty_client")
  obtain r2 c2 where two: "storeBlock demo_node no_faults demo_block c1 = (r2, c2)"
    by (cases "storeBlock demo_node no_faults demo_block c1")
  obtain q1 d1 where bad1: "storeBlock flaky_node no_faults demo_block empty_client = (q1, d1)"
    by (cases "storeBlock flaky_node no_faults demo_block empty_client")
  obtain q2 d2 where bad2: "storeBlock flaky_node no_faults demo_block d1 = (q2, d2)"
    by (cases "storeBlock flaky_node no_faults demo_block d1")
  from storeBlock_result [OF clean one] ok have r1: "r1 = Inr ()" by simp
  note idem = storeBlock_idempotent [OF clean keys one two]
  from idem r1 have r2: "r2 = Inr ()" and v: "visible c2 = visible c1" by simp_all
  from idem r2 have "filter (\<lambda>b. height b = height demo_block) (tbl_blocks (visible c2))
      = [insertBlock_row demo_block]" by blast
  then have b: "filter (\<lambda>b. height b = 7) (tbl_blocks (visible c2))
      = [\<lparr>height = 7, hash = ''h7'', timestamp = 1000, bitcoin_block_height = 3\<rparr>]"
    by (simp add: demo_block_def insertBlock_row_def)
  from storeBlock_idempotent [OF clean keys bad1 bad2] have q: "q2 = q1" by simp
  have st: "store_statements demo_node demo_block =
     [BEGIN,
      InsertBlock \<lparr>height = 7, hash = ''h7'', timestamp = 1000, bitcoin_block_height = 3\<rparr>,
      InsertTx \<lparr>txid = ''t1'', block_height = 7, data = ''{a}'', status = 0, bitcoin_txids = []\<rparr>,
      InsertTx \<lparr>txid = ''t2'', block_height = 7, data = ''{b}'', status = 1, bitcoin_txids = [''btc'']\<rparr>,
      COMMIT]"
    by (simp add: store_statements_def stored_rows_def demo_node_def demo_block_def insertTx_row_def
        status_code_def insertBlock_row_def)
  have sa: "sent_on Conn_A demo_schedule = store_statements demo_node demo_block"
    and sb: "sent_on Conn_B demo_schedule = store_statements demo_node demo_block"
    by (simp_all add: st sent_on_def demo_schedule_def)
  have lc: "last (commit_order demo_schedule) = Conn_A"
    by (simp add: commit_order_def demo_schedule_def)
  from idem r1 r2 have "\<forall>sched. sent_on Conn_A sched = store_statements demo_node demo_block \<and>
                     sent_on Conn_B sched = store_statements demo_node demo_block \<longrightarrow>
               committed (run_schedule sched (idle_server (visible empty_client)))
                 = (case last (commit_order sched) of
                      Conn_A \<Rightarrow> visible (snd (storeBlock demo_node no_faults demo_block
                                  (snd (storeBlock demo_node no_faults demo_block empty_client))))
                    | Conn_B \<Rightarrow> visible c2) \<and>
               (\<forall>x. txn (run_schedule sched (idle_server (visible empty_client))) x = None)"
    by blast
  with sa sb have "committed (run_schedule demo_schedule (idle_server (visible empty_client)))
                 = (case last (commit_order demo_schedule) of
                      Conn_A \<Rightarrow> visible (snd (storeBlock demo_node no_faults demo_block
                                  (snd (storeBlock demo_node no_faults demo_block empty_client))))
                    | Conn_B \<Rightarrow> visible c2) \<and>
               (\<forall>x. txn (run_schedule demo_schedule (idle_server (visible empty_client))) x = None)"
    by blast
  with lc v have ov: "committed (run_schedule demo_schedule (idle_server (visible empty_client))) = visible c1"
    "txn (run_schedule demo_schedule (idle_server (visible empty_client))) Conn_A = None"
    "txn (run_schedule demo_schedule (idle_server (visible empty_client))) Conn_B = None"
    by (simp_all add: one two)
  from clean keys r1 r2 v b q sa sb ov show ?thesis by (simp add: one two bad1 bad2)
qed

section \<open>Properties of the rows written\<close>

subsection \<open>The stored status\<close>

text \<open>
  Claim C7. The remote status the claim calls processing is the node's \<open>Processing\<close>
  status, the string \<open>storeBlock\<close> compares with. For every resolved transaction the stored
  status is 0 (pending) exactly when the remote status is that string, and 1 (finalized) for
  every other remote status, values that are not strings included. Every row \<open>storeBlock\<close>
  writes for a list of transaction ids carries the status so computed from what the node
  resolved for its id.
\<close>

theorem status_normalization:
  "(status (insertTx_row h txId tx) = 0 \<longleftrightarrow> tx_status tx = Status_string ''Processing'') \<and>
   (status (insertTx_row h txId tx) = 1 \<longleftrightarrow> tx_status tx \<noteq> Status_string ''Processing'') \<and>
   list_all (\<lambda>r. \<exists>tx. getProcessedTransaction nd (txid r) = Inr (Some tx) \<and>
                   status r = (if tx_status tx = Status_string ''Processing'' then 0 else 1))
     (stored_rows nd h ids)"
proof -
  have "\<exists>tx. getProcessedTransaction nd (txid r) = Inr (Some tx) \<and>
                   status r = (if tx_status tx = Status_string ''Processing'' then 0 else 1)"
    if "r \<in> set (stored_rows nd h ids)" for r
  proof -
    from stored_rows_member [OF that] obtain tx where
      tx: "getProcessedTransaction nd (txid r) = Inr (Some tx)" "r = insertTx_row h (txid r) tx"
      by blast
    from tx(2) have "status r = status (insertTx_row h (txid r) tx)" by simp
    then have "status r = (if tx_status tx = Status_string ''Processing'' then 0 else 1)"
      by (simp add: insertTx_row_def status_code_def)
    with tx(1) show ?thesis by blast
  qed
  then show ?thesis by (simp add: insertTx_row_def status_code_def list_all_iff)
qed

section \<open>Properties of the progress tracker\<close>

subsection \<open>Rounding\<close>

lemma round_half_even_error: "\<bar>of_int (round_half_even m) - m\<bar> \<le> 1 / 2"
proof -
  have a: "of_int \<lfloor>m\<rfloor> \<le> m" and b: "m < of_int \<lfloor>m\<rfloor> + 1" by linarith+
  show ?thesis
    unfolding round_half_even_def Let_def using a b by (auto simp: abs_le_iff)
qed

lemma exponent_of_lower:
  assumes "0 < x"
  shows "power_int 2 (exponent_of x) \<le> x"
proof (cases "1 \<le> x")
  case True
  let ?n = "\<lfloor>x\<rfloor>"
  from True have n: "0 < ?n" by linarith
  from bitlen_bounds [OF n] have lo: "2 ^ nat (bitlen ?n - 1) \<le> ?n" by simp
  from n have "bitlen ?n \<noteq> 0" by (simp add: bitlen_eq_zero_iff)
  with bitlen_nonneg [of ?n] have ge: "0 \<le> bitlen ?n - 1" by linarith
  have "power_int (2::rat) (bitlen ?n - 1) = 2 ^ nat (bitlen ?n - 1)"
    using ge by (simp add: power_int_def)
  also have "\<dots> = of_int (2 ^ nat (bitlen ?n - 1))" by simp
  also have "\<dots> \<le> of_int ?n" using lo by (simp only: of_int_le_iff)
  also have "\<dots> \<le> x" by linarith
  finally show ?thesis using True by (simp add: exponent_of_def)
next
  case False
  let ?n = "\<lfloor>1 / x\<rfloor>"
  from False assms have y: "1 < 1 / x" by (simp add: field_simps)
  then have n: "0 < ?n" by linarith
  show ?thesis
  proof (cases "x = power_int 2 (- (bitlen ?n - 1))")
    case True
    then have "exponent_of x = - (bitlen ?n - 1)"
      using False by (simp add: exponent_of_def Let_def)
    with True show ?thesis by simp
  next
    case ne: False
    then have e: "exponent_of x = - bitlen ?n"
      using False by (simp add: exponent_of_def Let_def)
    from bitlen_bounds [OF n] have hi: "?n < 2 ^ nat (bitlen ?n)" by simp
    then have "?n + 1 \<le> 2 ^ nat (bitlen ?n)" by simp
    then have "(of_int (?n + 1) :: rat) \<le> of_int (2 ^ nat (bitlen ?n))" by (simp only: of_int_le_iff)
    moreover have "1 / x < of_int (?n + 1)" by linarith
    ultimately have "1 / x \<le> 2 ^ nat (bitlen ?n)" by simp
    then have "1 \<le> x * 2 ^ nat (bitlen ?n)" using assms by (simp add: field_simps)
    then have "1 / 2 ^ nat (bitlen ?n) \<le> x" by (simp add: field_simps)
    moreover have "power_int (2::rat) (- bitlen ?n) = 1 / 2 ^ nat (bitlen ?n)"
      using bitlen_nonneg [of ?n] by (simp add: power_int_def field_simps)
    ultimately show ?thesis using e by simp
  qed
qed

text \<open>Rounding moves a number by at most half the spacing of the binary64 numbers around it.\<close>

lemma binary64_error: "\<bar>binary64 x - x\<bar> \<le> \<bar>x\<bar> / 2 ^ 53 + 1 / 2 ^ 1075"
proof (cases "x = 0")
  case True
  then show ?thesis by (simp add: binary64_def)
next
  case False
  define e where "e = max (exponent_of \<bar>x\<bar>) (- 1022)"
  define q :: rat where "q = power_int 2 (e - 52)"
  define m where "m = \<bar>x\<bar> / q"
  have qpos: "0 < q" by (simp add: q_def)
  have b: "binary64 x = sgn x * of_int (round_half_even m) * q"
    using False by (simp add: binary64_def Let_def e_def q_def m_def)
  have x: "x = sgn x * m * q" using qpos by (simp add: m_def mult_sgn_abs)
  have "binary64 x - x = sgn x * (of_int (round_half_even m) - m) * q"
    unfolding b by (subst x) (simp add: algebra_simps)
  then have "\<bar>binary64 x - x\<bar> = \<bar>of_int (round_half_even m) - m\<bar> * q"
    using False qpos by (simp add: abs_mult abs_sgn_eq)
  also have "\<dots> \<le> (1 / 2) * q"
    using round_half_even_error [of m] qpos by (intro mult_right_mono) simp_all
  finally have half: "\<bar>binary64 x - x\<bar> \<le> q / 2" by simp
  have qe: "q = power_int 2 e / 2 ^ 52"
    unfolding q_def by (subst power_int_diff) simp_all
  show ?thesis
  proof (cases "- 1022 \<le> exponent_of \<bar>x\<bar>")
    case True
    then have "e = exponent_of \<bar>x\<bar>" by (simp add: e_def)
    with exponent_of_lower [of "\<bar>x\<bar>"] False have "power_int 2 e \<le> \<bar>x\<bar>" by simp
    then have "q \<le> \<bar>x\<bar> / 2 ^ 52" unfolding qe by (simp add: divide_right_mono)
    with half show ?thesis by simp
  next
    case False
    then have "e = - 1022" by (simp add: e_def)
    then have "q = 1 / 2 ^ 1074" unfolding q_def by (simp add: inverse_eq_divide)
    then have q': "q / 2 = 1 / 2 ^ 1075" by simp
    from half have h: "\<bar>binary64 x - x\<bar> \<le> 1 / 2 ^ 1075" unfolding q' .
    have "(0::rat) \<le> \<bar>x\<bar> / 2 ^ 53" by simp
    with h show ?thesis by linarith
  qed
qed

text \<open>The two literals.\<close>

lemma binary64_nine_tenths: "binary64 (9 / 10) = 8106479329266893 / 9007199254740992"
  by code_simp

lemma binary64_one_tenth: "binary64 (1 / 10) = 3602879701896397 / 36028797018963968"
  by code_simp

subsection \<open>The update of the smoothed time\<close>

lemma nextAverageBlockTime_seed: "nextAverageBlockTime 0 d = d"
  by (simp add: nextAverageBlockTime_def)

lemma nextAverageBlockTime_error:
  assumes "a \<noteq> 0"
  shows "\<bar>nextAverageBlockTime a d - (9 / 10 * a + 1 / 10 * d)\<bar>
           \<le> (\<bar>a\<bar> + \<bar>d\<bar>) / 2 ^ 51 + 1 / 2 ^ 1073"
proof -
  define c9 :: rat where "c9 = 8106479329266893 / 9007199254740992"
  define c1 :: rat where "c1 = 3602879701896397 / 36028797018963968"
  define p1 where "p1 = binary64 (a * c9)"
  define p2 where "p2 = binary64 (d * c1)"
  define s where "s = binary64 (p1 + p2)"
  define tiny :: rat where "tiny = 1 / 2 ^ 1075"
  define A where "A = \<bar>a\<bar>"
  define D where "D = \<bar>d\<bar>"
  have tiny: "0 \<le> tiny" by (simp add: tiny_def)
  have A: "0 \<le> A" and D: "0 \<le> D" by (simp_all add: A_def D_def)
  have n: "nextAverageBlockTime a d = s"
    using assms
    by (simp add: nextAverageBlockTime_def binary64_nine_tenths binary64_one_tenth
        s_def p1_def p2_def c9_def c1_def)
  have ac: "\<bar>a * c9\<bar> = A * c9" by (simp add: abs_mult A_def c9_def)
  have dc: "\<bar>d * c1\<bar> = D * c1" by (simp add: abs_mult D_def c1_def)
  have e1: "\<bar>p1 - a * c9\<bar> \<le> A * c9 / 2 ^ 53 + tiny"
    using binary64_error [of "a * c9"] unfolding p1_def tiny_def ac .
  have e2: "\<bar>p2 - d * c1\<bar> \<le> D * c1 / 2 ^ 53 + tiny"
    using binary64_error [of "d * c1"] unfolding p2_def tiny_def dc .
  have e3: "\<bar>s - (p1 + p2)\<bar> \<le> \<bar>p1 + p2\<bar> / 2 ^ 53 + tiny"
    using binary64_error [of "p1 + p2"] unfolding s_def tiny_def .
  have "a * c9 - 9 / 10 * a = a * (c9 - 9 / 10)" by (simp add: algebra_simps)
  then have "\<bar>a * c9 - 9 / 10 * a\<bar> = A * \<bar>c9 - 9 / 10\<bar>" by (simp add: abs_mult A_def)
  also have "\<bar>c9 - 9 / 10\<bar> = 1 / 45035996273704960" by (simp add: c9_def)
  finally have d1: "\<bar>a * c9 - 9 / 10 * a\<bar> = A * (1 / 45035996273704960)" .
  have "d * c1 - 1 / 10 * d = d * (c1 - 1 / 10)" by (simp add: algebra_simps)
  then have "\<bar>d * c1 - 1 / 10 * d\<bar> = D * \<bar>c1 - 1 / 10\<bar>" by (simp add: abs_mult D_def)
  also have "\<bar>c1 - 1 / 10\<bar> = 1 / 180143985094819840" by (simp add: c1_def)
  finally have d2: "\<bar>d * c1 - 1 / 10 * d\<bar> = D * (1 / 180143985094819840)" .
  have b1: "\<bar>p1\<bar> \<le> A * c9 + (A * c9 / 2 ^ 53 + tiny)"
    using e1 ac by linarith
  have b2: "\<bar>p2\<bar> \<le> D * c1 + (D * c1 / 2 ^ 53 + tiny)"
    using e2 dc by linarith
  have c9le: "A * c9 \<le> A" using A by (simp add: c9_def mult_le_cancel_left1)
  have c1le: "D * c1 \<le> D / 8" using D by (simp add: c1_def)
  have small: "tiny / 2 ^ 53 \<le> tiny" using tiny by simp
  have b3: "\<bar>p1 + p2\<bar> \<le> \<bar>p1\<bar> + \<bar>p2\<bar>" by (rule abs_triangle_ineq)
  have tri: "\<bar>s - (9 / 10 * a + 1 / 10 * d)\<bar>
      \<le> \<bar>s - (p1 + p2)\<bar> + \<bar>p1 - a * c9\<bar> + \<bar>p2 - d * c1\<bar>
        + \<bar>a * c9 - 9 / 10 * a\<bar> + \<bar>d * c1 - 1 / 10 * d\<bar>"
    by linarith
  have "\<bar>s - (9 / 10 * a + 1 / 10 * d)\<bar> \<le> (A + D) / 2 ^ 51 + 4 * tiny"
    using tri e1 e2 e3 d1 d2 b1 b2 b3 c9le c1le small A D tiny by (simp add: field_simps)
  moreover have "4 * tiny = 1 / 2 ^ 1073" by (simp add: tiny_def)
  ultimately show ?thesis unfolding n A_def D_def by simp
qed

text \<open>Below \<open>2 ^ 1023\<close> none of the three operations overflows.\<close>

lemma nextAverageBlockTime_in_range:
  assumes "\<bar>a\<bar> < 2 ^ 1023" "\<bar>d\<bar> < 2 ^ 1023"
  shows "\<not> overflows (a * binary64 (9 / 10)) \<and>
         \<not> overflows (d * binary64 (1 / 10)) \<and>
         \<not> overflows (binary64 (a * binary64 (9 / 10)) + binary64 (d * binary64 (1 / 10)))"
proof -
  define c9 :: rat where "c9 = 8106479329266893 / 9007199254740992"
  define c1 :: rat where "c1 = 3602879701896397 / 36028797018963968"
  define p1 where "p1 = binary64 (a * c9)"
  define p2 where "p2 = binary64 (d * c1)"
  define tiny :: rat where "tiny = 1 / 2 ^ 1075"
  define big :: rat where "big = 2 ^ 1023"
  define A where "A = \<bar>a\<bar>"
  define D where "D = \<bar>d\<bar>"
  have A: "0 \<le> A" "A < big" and D: "0 \<le> D" "D < big"
    using assms by (simp_all add: A_def D_def big_def)
  have thr: "(2::rat) ^ 1024 - 2 ^ 970 = 2 * big - big / 2 ^ 53" by (simp add: big_def)
  have tiny: "tiny \<le> big / 2 ^ 53" by (simp add: tiny_def big_def)
  have ac: "\<bar>a * c9\<bar> = A * c9" by (simp add: abs_mult A_def c9_def)
  have dc: "\<bar>d * c1\<bar> = D * c1" by (simp add: abs_mult D_def c1_def)
  have e1: "\<bar>p1 - a * c9\<bar> \<le> A * c9 / 2 ^ 53 + tiny"
    using binary64_error [of "a * c9"] unfolding p1_def tiny_def ac .
  have e2: "\<bar>p2 - d * c1\<bar> \<le> D * c1 / 2 ^ 53 + tiny"
    using binary64_error [of "d * c1"] unfolding p2_def tiny_def dc .
  have b1: "\<bar>p1\<bar> \<le> A * c9 + (A * c9 / 2 ^ 53 + tiny)"
    using e1 ac by linarith
  have b2: "\<bar>p2\<bar> \<le> D * c1 + (D * c1 / 2 ^ 53 + tiny)"
    using e2 dc by linarith
  have c9le: "A * c9 \<le> A * (91 / 100)" using A(1) by (simp add: c9_def)
  have c1le: "D * c1 \<le> D * (11 / 100)" using D(1) by (simp add: c1_def)
  have b3: "\<bar>p1 + p2\<bar> \<le> \<bar>p1\<bar> + \<bar>p2\<bar>" by (rule abs_triangle_ineq)
  have r1: "\<bar>a * c9\<bar> < 2 * big - big / 2 ^ 53"
    unfolding ac using c9le A by (simp add: field_simps)
  have r2: "\<bar>d * c1\<bar> < 2 * big - big / 2 ^ 53"
    unfolding dc using c1le D by (simp add: field_simps)
  have r3: "\<bar>p1 + p2\<bar> < 2 * big - big / 2 ^ 53"
    using b1 b2 b3 c9le c1le A D tiny by (simp add: field_simps)
  from r1 r2 r3 show ?thesis
    unfolding overflows_def thr binary64_nine_tenths binary64_one_tenth
      p1_def [symmetric] p2_def [symmetric] c9_def [symmetric] c1_def [symmetric]
    by simp
qed

lemma nextAverageBlockTime_100_100: "nextAverageBlockTime 100 100 = 100"
  by code_simp

lemma nextAverageBlockTime_100_200: "nextAverageBlockTime 100 200 = 110"
  by code_simp

lemma nextAverageBlockTime_1_41: "nextAverageBlockTime 1 41 = 5 + 1 / 2 ^ 50"
  by code_simp

lemma nextAverageBlockTime_99_99: "nextAverageBlockTime 99 99 = 99 + 1 / 2 ^ 46"
  by code_simp

lemma processBlock_average:
  assumes "processBlock nd f t0 t1 h st = (r, st')"
  shows "averageBlockTime st' =
           (case r of Inl e \<Rightarrow> averageBlockTime st
            | Inr b \<Rightarrow> nextAverageBlockTime (averageBlockTime st) (of_int (t1 - t0)))"
  using assms
  by (auto simp: processBlock_def Let_def split: sum.splits prod.splits option.splits)

lemma processBlock_demo:
  "\<exists>st'. processBlock demo_node no_faults t0 t1 7 (fresh_indexer\<lparr>averageBlockTime := a\<rparr>)
           = (Inr demo_block, st')"
proof -
  have blk: "demo_block\<lparr>height := 7, hash := ''h7''\<rparr> = demo_block" by (simp add: demo_block_def)
  have gh: "getBlockHash demo_node 7 = Inr ''h7''" "getBlock demo_node ''h7'' = Inr (Some demo_block)"
    by (simp_all add: demo_node_def)
  show ?thesis
    using demo_store by (simp add: processBlock_def gh blk fresh_indexer_def)
qed

lemma processBlock_flaky:
  "\<exists>st'. processBlock flaky_node no_faults t0 t1 7 (fresh_indexer\<lparr>averageBlockTime := a\<rparr>)
           = (Inl (RpcError ''timeout''), st')"
proof -
  have blk: "demo_block\<lparr>height := 7, hash := ''h7''\<rparr> = demo_block" by (simp add: demo_block_def)
  have gh: "getBlockHash flaky_node 7 = Inr ''h7''" "getBlock flaky_node ''h7'' = Inr (Some demo_block)"
    by (simp_all add: demo_node_def flaky_node_def)
  show ?thesis
    using flaky_store by (simp add: processBlock_def gh blk fresh_indexer_def)
qed

text \<open>
  Claim C6 says that from a current average \<open>a > 0\<close> and a duration \<open>d\<close> the new average is
  \<open>0.9 * a + 0.1 * d\<close>. With the average at 1, a block processed in 41 ms brings the
  average to \<open>5 + 2 ^ -50\<close>, which JavaScript prints as \<open>5.000000000000001\<close>, and not to
  \<open>0.9 * 1 + 0.1 * 41 = 5\<close>: the two products and the sum are computed in binary64. In the
  same way, with the average at 99 a block processed in 99 ms brings it to \<open>99 + 2 ^ -46\<close>.
\<close>

theorem average_block_time_counterexample:
  "fst (processBlock demo_node no_faults 5000 5041 7 (fresh_indexer\<lparr>averageBlockTime := 1\<rparr>))
     = Inr demo_block \<and>
   averageBlockTime
     (snd (processBlock demo_node no_faults 5000 5041 7 (fresh_indexer\<lparr>averageBlockTime := 1\<rparr>)))
     = 5 + 1 / 2 ^ 50 \<and>
   nextAverageBlockTime 1 41 = 5 + 1 / 2 ^ 50 \<and>
   nextAverageBlockTime 1 41 \<noteq> 9 / 10 * 1 + 1 / 10 * 41 \<and>
   nextAverageBlockTime 99 99 = 99 + 1 / 2 ^ 46 \<and>
   nextAverageBlockTime 99 99 \<noteq> 9 / 10 * 99 + 1 / 10 * 99"
proof -
  obtain st' where ok: "processBlock demo_node no_faults 5000 5041 7 (fresh_indexer\<lparr>averageBlockTime := 1\<rparr>)
      = (Inr demo_block, st')"
    using processBlock_demo [of 5000 5041 1] by blast
  from processBlock_average [OF ok]
  have "averageBlockTime st' = nextAverageBlockTime 1 41" by (simp add: fresh_indexer_def)
  with ok show ?thesis by (simp add: nextAverageBlockTime_1_41 nextAverageBlockTime_99_99)
qed

text \<open>
  Claim C6, amended. A call of \<open>processBlock\<close> that succeeds replaces the smoothed time by
  \<open>nextAverageBlockTime\<close> of the old value and the measured duration, and a call that
  fails leaves it alone. For the value 0, which is what the module starts with, the new
  value is the duration \<open>d\<close> itself. For a current value \<open>a\<close> other than 0 (in particular
  for every positive one) and a duration \<open>d\<close>, both of magnitude below \<open>2 ^ 1023\<close>, none of
  the operations overflows and the new value is \<open>a * 0.9 + d * 0.1\<close> computed in binary64,
  the two products and the sum each rounded to nearest; it is within
  \<open>(|a| + |d|) * 2 ^ -51 + 2 ^ -1073\<close> of \<open>0.9 * a + 0.1 * d\<close>. Starting from 0, the durations
  100, 100, 100 leave the value at exactly 100, and the durations 100, 200 bring it to
  exactly 110.
\<close>

theorem average_block_time_ema:
  "(processBlock nd f t0 t1 h st = (Inr b, st') \<longrightarrow>
      averageBlockTime st' = nextAverageBlockTime (averageBlockTime st) (of_int (t1 - t0))) \<and>
   (processBlock nd f t0 t1 h st = (Inl e, st') \<longrightarrow> averageBlockTime st' = averageBlockTime st) \<and>
   nextAverageBlockTime 0 d = d \<and>
   (a \<noteq> 0 \<and> \<bar>a\<bar> < 2 ^ 1023 \<and> \<bar>d\<bar> < 2 ^ 1023 \<longrightarrow>
      \<not> overflows (a * binary64 (9 / 10)) \<and>
      \<not> overflows (d * binary64 (1 / 10)) \<and>
      \<not> overflows (binary64 (a * binary64 (9 / 10)) + binary64 (d * binary64 (1 / 10))) \<and>
      nextAverageBlockTime a d
        = binary64 (binary64 (a * binary64 (9 / 10)) + binary64 (d * binary64 (1 / 10))) \<and>
      \<bar>nextAverageBlockTime a d - (9 / 10 * a + 1 / 10 * d)\<bar>
        \<le> (\<bar>a\<bar> + \<bar>d\<bar>) / 2 ^ 51 + 1 / 2 ^ 1073) \<and>
   fold (\<lambda>d avg. nextAverageBlockTime avg d) [100, 100, 100] 0 = 100 \<and>
   fold (\<lambda>d avg. nextAverageBlockTime avg d) [100, 200] 0 = 110"
proof -
  have ok: "processBlock nd f t0 t1 h st = (Inr b, st') \<longrightarrow>
      averageBlockTime st' = nextAverageBlockTime (averageBlockTime st) (of_int (t1 - t0))"
    using processBlock_average [of nd f t0 t1 h st "Inr b" st'] by simp
  have bad: "processBlock nd f t0 t1 h st = (Inl e, st') \<longrightarrow> averageBlockTime st' = averageBlockTime st"
    using processBlock_average [of nd f t0 t1 h st "Inl e" st'] by simp
  have upd: "a \<noteq> 0 \<and> \<bar>a\<bar> < 2 ^ 1023 \<and> \<bar>d\<bar> < 2 ^ 1023 \<longrightarrow>
      \<not> overflows (a * binary64 (9 / 10)) \<and>
      \<not> overflows (d * binary64 (1 / 10)) \<and>
      \<not> overflows (binary64 (a * binary64 (9 / 10)) + binary64 (d * binary64 (1 / 10))) \<and>
      nextAverageBlockTime a d
        = binary64 (binary64 (a * binary64 (9 / 10)) + binary64 (d * binary64 (1 / 10))) \<and>
      \<bar>nextAverageBlockTime a d - (9 / 10 * a + 1 / 10 * d)\<bar>
        \<le> (\<bar>a\<bar> + \<bar>d\<bar>) / 2 ^ 51 + 1 / 2 ^ 1073"
  proof
    assume h: "a \<noteq> 0 \<and> \<bar>a\<bar> < 2 ^ 1023 \<and> \<bar>d\<bar> < 2 ^ 1023"
    then have a: "a \<noteq> 0" and ra: "\<bar>a\<bar> < 2 ^ 1023" and rd: "\<bar>d\<bar> < 2 ^ 1023" by simp_all
    from a have eq: "nextAverageBlockTime a d
        = binary64 (binary64 (a * binary64 (9 / 10)) + binary64 (d * binary64 (1 / 10)))"
      by (simp only: nextAverageBlockTime_def if_False)
    note rng = nextAverageBlockTime_in_range [OF ra rd]
    show "\<not> overflows (a * binary64 (9 / 10)) \<and>
      \<not> overflows (d * binary64 (1 / 10)) \<and>
      \<not> overflows (binary64 (a * binary64 (9 / 10)) + binary64 (d * binary64 (1 / 10))) \<and>
      nextAverageBlockTime a d
        = binary64 (binary64 (a * binary64 (9 / 10)) + binary64 (d * binary64 (1 / 10))) \<and>
      \<bar>nextAverageBlockTime a d - (9 / 10 * a + 1 / 10 * d)\<bar>
        \<le> (\<bar>a\<bar> + \<bar>d\<bar>) / 2 ^ 51 + 1 / 2 ^ 1073"
      by (intro conjI rng [THEN conjunct1] rng [THEN conjunct2, THEN conjunct1]
          rng [THEN conjunct2, THEN conjunct2] eq nextAverageBlockTime_error [OF a])
  qed
  have s1: "fold (\<lambda>d avg. nextAverageBlockTime avg d) [100, 100, 100] 0 = 100"
    by (simp add: nextAverageBlockTime_seed nextAverageBlockTime_100_100)
  have s2: "fold (\<lambda>d avg. nextAverageBlockTime avg d) [100, 200] 0 = 110"
    by (simp add: nextAverageBlockTime_seed nextAverageBlockTime_100_200)
  show ?thesis
    by (intro conjI ok bad upd s1 s2 nextAverageBlockTime_seed)
qed

theorem average_block_time_ema_witness:
  "fst (processBlock demo_node no_faults 5000 5100 7 fresh_indexer) = Inr demo_block \<and>
   averageBlockTime (snd (processBlock demo_node no_faults 5000 5100 7 fresh_indexer)) = 100 \<and>
   fst (processBlock flaky_node no_faults 5000 5100 7 fresh_indexer) = Inl (RpcError ''timeout'') \<and>
   averageBlockTime (snd (processBlock flaky_node no_faults 5000 5100 7 fresh_indexer)) = 0 \<and>
   (100::rat) \<noteq> 0 \<and> \<bar>100::rat\<bar> < 2 ^ 1023 \<and> \<bar>200::rat\<bar> < 2 ^ 1023 \<and>
   \<not> overflows (binary64 (100 * binary64 (9 / 10)) + binary64 (200 * binary64 (1 / 10))) \<and>
   nextAverageBlockTime 100 200
     = binary64 (binary64 (100 * binary64 (9 / 10)) + binary64 (200 * binary64 (1 / 10))) \<and>
   \<bar>nextAverageBlockTime 100 200 - 110\<bar> \<le> 300 / 2 ^ 51 + 1 / 2 ^ 1073"
proof -
  have fi: "fresh_indexer\<lparr>averageBlockTime := 0\<rparr> = fresh_indexer" by (simp add: fresh_indexer_def)
  obtain st' where ok: "processBlock demo_node no_faults 5000 5100 7 fresh_indexer = (Inr demo_block, st')"
    using processBlock_demo [of 5000 5100 0] unfolding fi by blast
  obtain st'' where bad: "processBlock flaky_node no_faults 5000 5100 7 fresh_indexer
      = (Inl (RpcError ''timeout''), st'')"
    using processBlock_flaky [of 5000 5100 0] unfolding fi by blast
  note th = average_block_time_ema [where nd = demo_node and f = no_faults and ?t0.0 = 5000
      and ?t1.0 = 5100 and h = 7 and st = fresh_indexer and b = demo_block and st' = st'
      and a = 100 and d = 200]
  from th [THEN conjunct1, THEN mp, OF ok]
    average_block_time_ema [where d = 100, THEN conjunct2, THEN conjunct2, THEN conjunct1]
  have a: "averageBlockTime st' = 100" by (simp add: fresh_indexer_def)
  from average_block_time_ema [where nd = flaky_node and f = no_faults and ?t0.0 = 5000 and ?t1.0 = 5100
      and h = 7 and st = fresh_indexer and e = "RpcError ''timeout''" and st' = st'',
      THEN conjunct2, THEN conjunct1, THEN mp, OF bad]
  have b: "averageBlockTime st'' = 0" by (simp add: fresh_indexer_def)
  have nz: "(100::rat) \<noteq> 0" and r1: "\<bar>100::rat\<bar> < 2 ^ 1023" and r2: "\<bar>200::rat\<bar> < 2 ^ 1023"
    by simp_all
  from nz r1 r2 have hyp: "(100::rat) \<noteq> 0 \<and> \<bar>100::rat\<bar> < 2 ^ 1023 \<and> \<bar>200::rat\<bar> < 2 ^ 1023"
    by (intro conjI)
  note u = th [THEN conjunct2, THEN conjunct2, THEN conjunct2, THEN conjunct1, THEN mp, OF hyp]
  note o = u [THEN conjunct2, THEN conjunct2, THEN conjunct1]
  note c = u [THEN conjunct2, THEN conjunct2, THEN conjunct2, THEN conjunct1]
  have d: "\<bar>nextAverageBlockTime 100 200 - 110\<bar> \<le> 300 / 2 ^ 51 + 1 / 2 ^ 1073"
    using u [THEN conjunct2, THEN conjunct2, THEN conjunct2, THEN conjunct2] by simp
  have p: "fst (processBlock demo_node no_faults 5000 5100 7 fresh_indexer) = Inr demo_block"
    "averageBlockTime (snd (processBlock demo_node no_faults 5000 5100 7 fresh_indexer)) = 100"
    "fst (processBlock flaky_node no_faults 5000 5100 7 fresh_indexer) = Inl (RpcError ''timeout'')"
    "averageBlockTime (snd (processBlock flaky_node no_faults 5000 5100 7 fresh_indexer)) = 0"
    using a b by (simp_all add: ok bad)
  show ?thesis
    by (intro conjI p nz r1 r2 o c d)
qed

section \<open>Properties of the read endpoints\<close>

lemma sorted_desc_sort_key:
  "sorted_wrt (\<lambda>a b. key b \<le> key a) (sort_key (\<lambda>r. - key r) (xs :: 'a list))" for key :: "'a \<Rightarrow> int"
proof -
  have "sorted (map (\<lambda>r. - key r) (sort_key (\<lambda>r. - key r) xs))" by (rule sorted_sort_key)
  then show ?thesis by (simp add: sorted_map)
qed

text \<open>
  Claim C10. Whatever the store holds, a successful answer of the blocks listing has at most
  200 rows (as many as the table has, if fewer), taken from the table and ordered by
  descending height; a successful answer of the transactions listing has at most 20 rows,
  taken from the table and ordered by descending block height.
\<close>

theorem listing_bounds:
  "(api_blocks qf db = Ok_200 rows \<longrightarrow>
      length rows \<le> 200 \<and> length rows = min 200 (length (tbl_blocks db)) \<and>
      sorted_wrt (\<lambda>a b. height b \<le> height a) rows \<and> set rows \<subseteq> set (tbl_blocks db)) \<and>
   (api_transactions qf db = Ok_200 txs \<longrightarrow>
      length txs \<le> 20 \<and> length txs = min 20 (length (tbl_transactions db)) \<and>
      sorted_wrt (\<lambda>a b. block_height b \<le> block_height a) txs \<and> set txs \<subseteq> set (tbl_transactions db))"
proof -
  have a: "sorted_wrt (\<lambda>a b. height b \<le> height a) (take n (sort_key (\<lambda>r. - height r) (tbl_blocks db)))" for n
    by (rule sorted_wrt_take) (rule sorted_desc_sort_key)
  have b: "sorted_wrt (\<lambda>a b. block_height b \<le> block_height a)
             (take n (sort_key (\<lambda>r. - block_height r) (tbl_transactions db)))" for n
    by (rule sorted_wrt_take) (rule sorted_desc_sort_key)
  show ?thesis
    using a b by (auto simp: api_blocks_def api_transactions_def split: if_splits dest: in_set_takeD)
qed


theorem listing_bounds_witness:
  "api_blocks False demo_store_db =
     Ok_200 [\<lparr>height = 43, hash = ''abc'', timestamp = 2, bitcoin_block_height = 1\<rparr>,
             \<lparr>height = 42, hash = ''42'', timestamp = 1, bitcoin_block_height = 1\<rparr>] \<and>
   api_transactions False demo_store_db =
     Ok_200 [\<lparr>txid = ''42'', block_height = 43, data = ''{}'', status = 1, bitcoin_txids = []\<rparr>] \<and>
   length [\<lparr>height = 43, hash = ''abc'', timestamp = 2, bitcoin_block_height = 1\<rparr>,
           \<lparr>height = 42, hash = ''42'', timestamp = 1, bitcoin_block_height = 1\<rparr>] \<le> (200::nat) \<and>
   sorted_wrt (\<lambda>a b. height b \<le> height a)
     [\<lparr>height = 43, hash = ''abc'', timestamp = 2, bitcoin_block_height = 1\<rparr>,
      \<lparr>height = 42, hash = ''42'', timestamp = 1, bitcoin_block_height = 1\<rparr>]"
proof -
  have a: "api_blocks False demo_store_db =
     Ok_200 [\<lparr>height = 43, hash = ''abc'', timestamp = 2, bitcoin_block_height = 1\<rparr>,
             \<lparr>height = 42, hash = ''42'', timestamp = 1, bitcoin_block_height = 1\<rparr>]"
    by (simp add: api_blocks_def demo_store_db_def)
  have b: "api_transactions False demo_store_db =
     Ok_200 [\<lparr>txid = ''42'', block_height = 43, data = ''{}'', status = 1, bitcoin_txids = []\<rparr>]"
    by (simp add: api_transactions_def demo_store_db_def)
  from listing_bounds [of False demo_store_db
      "[\<lparr>height = 43, hash = ''abc'', timestamp = 2, bitcoin_block_height = 1\<rparr>,
        \<lparr>height = 42, hash = ''42'', timestamp = 1, bitcoin_block_height = 1\<rparr>]"
      "[\<lparr>txid = ''42'', block_height = 43, data = ''{}'', status = 1, bitcoin_txids = []\<rparr>]"] a b
  have "length [\<lparr>height = 43, hash = ''abc'', timestamp = 2, bitcoin_block_height = 1\<rparr>,
           \<lparr>height = 42, hash = ''42'', timestamp = 1, bitcoin_block_height = 1\<rparr>] \<le> (200::nat) \<and>
   sorted_wrt (\<lambda>a b. height b \<le> height a)
     [\<lparr>height = 43, hash = ''abc'', timestamp = 2, bitcoin_block_height = 1\<rparr>,
      \<lparr>height = 42, hash = ''42'', timestamp = 1, bitcoin_block_height = 1\<rparr>]"
    by blast
  with a b show ?thesis by blast
qed

text \<open>
  Claim C9. The search handler answers by fixed precedence: the first transaction row whose
  id is the term; failing that, the first block row whose hash is the term; failing that, and
  only when \<open>parseInt\<close> yields a number, the first block row of that height; and 404
  otherwise. A rejected query ends the handler with 500 at the point where it is made. Hence
  a term that is a stored transaction id yields a transaction with that id, whatever blocks
  match it by hash or height.
\<close>

theorem search_precedence:
  "api_search parseInt query_fails db term =
     (if query_fails 0 then Error_500
      else case find (\<lambda>r. txid r = term) (tbl_transactions db) of
        Some t \<Rightarrow> Ok_200 (Transaction_hit t)
      | None \<Rightarrow>
          if query_fails 1 then Error_500
          else case find (\<lambda>b. hash b = term) (tbl_blocks db) of
            Some b \<Rightarrow> Ok_200 (Block_hit b)
          | None \<Rightarrow>
              (case parseInt term of
                 None \<Rightarrow> Not_found_404
               | Some h \<Rightarrow>
                   if query_fails 2 then Error_500
                   else case find (\<lambda>b. height b = h) (tbl_blocks db) of
                     Some b \<Rightarrow> Ok_200 (Block_hit b)
                   | None \<Rightarrow> Not_found_404)) \<and>
   (\<not> query_fails 0 \<and> term \<in> txid ` set (tbl_transactions db) \<longrightarrow>
      (\<exists>t \<in> set (tbl_transactions db). txid t = term \<and>
         api_search parseInt query_fails db term = Ok_200 (Transaction_hit t)))"
proof -
  have eq: "api_search parseInt query_fails db term =
     (if query_fails 0 then Error_500
      else case find (\<lambda>r. txid r = term) (tbl_transactions db) of
        Some t \<Rightarrow> Ok_200 (Transaction_hit t)
      | None \<Rightarrow>
          if query_fails 1 then Error_500
          else case find (\<lambda>b. hash b = term) (tbl_blocks db) of
            Some b \<Rightarrow> Ok_200 (Block_hit b)
          | None \<Rightarrow>
              (case parseInt term of
                 None \<Rightarrow> Not_found_404
               | Some h \<Rightarrow>
                   if query_fails 2 then Error_500
                   else case find (\<lambda>b. height b = h) (tbl_blocks db) of
                     Some b \<Rightarrow> Ok_200 (Block_hit b)
                   | None \<Rightarrow> Not_found_404))"
    unfolding api_search_def find_filter_hd
    by (simp split: list.splits option.splits)
  have hit: "\<exists>t \<in> set (tbl_transactions db). txid t = term \<and>
         api_search parseInt query_fails db term = Ok_200 (Transaction_hit t)"
    if "\<not> query_fails 0" "term \<in> txid ` set (tbl_transactions db)"
  proof -
    from that(2) obtain t where t: "find (\<lambda>r. txid r = term) (tbl_transactions db) = Some t"
      by (cases "find (\<lambda>r. txid r = term) (tbl_transactions db)") (auto simp: find_None_iff)
    then have "t \<in> set (tbl_transactions db)" "txid t = term"
      unfolding find_Some_iff by (metis nth_mem)+
    with t that(1) show ?thesis by (auto simp: eq)
  qed
  from eq hit show ?thesis by blast
qed

theorem search_precedence_witness:
  "\<not> (\<lambda>k::nat. False) 0 \<and> ''42'' \<in> txid ` set (tbl_transactions demo_store_db) \<and>
   ''42'' \<in> hash ` set (tbl_blocks demo_store_db) \<and>
   parse_digits ''42'' = Some 42 \<and> 42 \<in> height ` set (tbl_blocks demo_store_db) \<and>
   api_search parse_digits (\<lambda>k. False) demo_store_db ''42'' =
     Ok_200 (Transaction_hit \<lparr>txid = ''42'', block_height = 43, data = ''{}'', status = 1, bitcoin_txids = []\<rparr>) \<and>
   api_search parse_digits (\<lambda>k. False) demo_store_db ''abc'' =
     Ok_200 (Block_hit \<lparr>height = 43, hash = ''abc'', timestamp = 2, bitcoin_block_height = 1\<rparr>) \<and>
   api_search parse_digits (\<lambda>k. False) demo_store_db ''43'' =
     Ok_200 (Block_hit \<lparr>height = 43, hash = ''abc'', timestamp = 2, bitcoin_block_height = 1\<rparr>) \<and>
   api_search parse_digits (\<lambda>k. False) demo_store_db ''44'' = Not_found_404 \<and>
   api_search parse_digits (\<lambda>k. False) demo_store_db ''xyz'' = Not_found_404"
proof -
  have m: "''42'' \<in> txid ` set (tbl_transactions demo_store_db)"
    "''42'' \<in> hash ` set (tbl_blocks demo_store_db)"
    "42 \<in> height ` set (tbl_blocks demo_store_db)"
    by (simp_all add: demo_store_db_def)
  have p: "parse_digits ''42'' = Some 42" "parse_digits ''43'' = Some 43" "parse_digits ''44'' = Some 44"
    "parse_digits ''abc'' = None" "parse_digits ''xyz'' = None"
    by (simp_all add: parse_digits_def)
  from search_precedence [of parse_digits "\<lambda>k. False" demo_store_db "''42''"] m(1)
  have a: "api_search parse_digits (\<lambda>k. False) demo_store_db ''42'' =
     Ok_200 (Transaction_hit \<lparr>txid = ''42'', block_height = 43, data = ''{}'', status = 1, bitcoin_txids = []\<rparr>)"
    by (simp add: demo_store_db_def)
  from search_precedence [of parse_digits "\<lambda>k. False" demo_store_db "''abc''"]
  have b: "api_search parse_digits (\<lambda>k. False) demo_store_db ''abc'' =
     Ok_200 (Block_hit \<lparr>height = 43, hash = ''abc'', timestamp = 2, bitcoin_block_height = 1\<rparr>)"
    by (simp add: demo_store_db_def)
  from search_precedence [of parse_digits "\<lambda>k. False" demo_store_db "''43''"] p
  have c: "api_search parse_digits (\<lambda>k. False) demo_store_db ''43'' =
     Ok_200 (Block_hit \<lparr>height = 43, hash = ''abc'', timestamp = 2, bitcoin_block_height = 1\<rparr>)"
    by (simp add: demo_store_db_def)
  from search_precedence [of parse_digits "\<lambda>k. False" demo_store_db "''44''"] p
  have d: "api_search parse_digits (\<lambda>k. False) demo_store_db ''44'' = Not_found_404"
    by (simp add: demo_store_db_def)
  from search_precedence [of parse_digits "\<lambda>k. False" demo_store_db "''xyz''"] p
  have e: "api_search parse_digits (\<lambda>k. False) demo_store_db ''xyz'' = Not_found_404"
    by (simp add: demo_store_db_def)
  from m p a b c d e show ?thesis by simp
qed

end
